theory Spec2Isabelle
  imports Main "HOL-Library.Word" "HOL-Library.Monad_Syntax"
begin

section \<open>Stencil convolution of VexCL (vexcl/stencil.hpp)\<close>

text \<open>
  The element type \<open>T\<close> of the templates is a type variable \<open>'a\<close> that carries only
  the operations the kernels use (\<open>0\<close>, \<open>+\<close>, \<open>*\<close>, and unary minus for the negated
  transform); no algebraic law is assumed of them, so that the results hold for
  any arithmetic, whatever its rounding.

  Device and host buffers are lists. A read or a write outside a buffer is
  undefined behaviour in the source; in the model it is the value \<open>None\<close>, which
  is also the value of a run that does not return. A result \<open>Some v\<close>
  therefore says that the run returned and that no access left its buffer.
\<close>

subsection \<open>Buffers\<close>

definition buf_read :: "'a list \<Rightarrow> int \<Rightarrow> 'a option" where
  "buf_read b i = (if 0 \<le> i \<and> i < int (length b) then Some (b ! nat i) else None)"

text \<open>Copy \<open>vals\<close> into \<open>b\<close> from position \<open>pos\<close> on (\<open>read_data\<close> into a host pointer,
  \<open>enqueueWriteBuffer\<close> into a device buffer).\<close>

definition buf_write :: "'a list \<Rightarrow> int \<Rightarrow> 'a list \<Rightarrow> 'a list option" where
  "buf_write b pos vals =
     (if 0 \<le> pos \<and> pos + int (length vals) \<le> int (length b)
      then Some (take (nat pos) b @ vals @ drop (nat pos + length vals) b)
      else None)"

text \<open>\<open>std::fill(&b[lo], &b[hi], v)\<close>.\<close>

definition buf_fill :: "'a list \<Rightarrow> int \<Rightarrow> int \<Rightarrow> 'a \<Rightarrow> 'a list option" where
  "buf_fill b lo hi v =
     (if 0 \<le> lo \<and> lo \<le> hi \<and> hi \<le> int (length b)
      then Some (take (nat lo) b @ replicate (nat (hi - lo)) v @ drop (nat hi) b)
      else None)"

subsection \<open>Machine integers\<close>

text \<open>
  The halo widths, the counters of the kernels and \<open>width\<close> in \<open>exchange_halos\<close>
  are 32-bit \<open>int\<close>s, the device counter \<open>d\<close> and the offsets into \<open>hbuf\<close> computed
  from it are \<open>unsigned\<close>. \<open>trunc_int v\<close> is the \<open>int\<close> and \<open>trunc_uint v\<close> the
  \<open>unsigned\<close> that holds \<open>v\<close> modulo \<open>2^32\<close>: a conversion that narrows and an
  arithmetic operation that overflows both wrap around (for the signed
  operations this is what the compiled code does). Sizes and indices of type
  \<open>size_t\<close>, \<open>ptrdiff_t\<close> and \<open>long\<close> have 64 bits and are computed exactly.
\<close>

definition trunc_int :: "int \<Rightarrow> int" where
  "trunc_int v = sint (word_of_int v :: 32 word)"

definition trunc_uint :: "int \<Rightarrow> int" where
  "trunc_uint v = uint (word_of_int v :: 32 word)"

subsection \<open>The in-kernel read policy\<close>

text \<open>
  \<open>read_x\<close> as \<open>define_read_x\<close> emits it. \<open>g_id\<close> is a \<open>ptrdiff_t\<close>, \<open>n\<close> a \<open>size_t\<close>,
  the halo widths are \<open>int\<close>s. The comparison \<open>g_id < n\<close> is made on unsigned values
  in the source, after \<open>g_id >= 0\<close> has been checked; \<open>g_id < n + rhalo\<close> is reached
  only with \<open>g_id \<ge> n\<close>. With halo widths that are not negative (the constructor
  asserts it) the 64-bit arithmetic of the source is the arithmetic of \<open>int\<close>.
\<close>

definition read_x ::
  "int \<Rightarrow> nat \<Rightarrow> bool \<Rightarrow> bool \<Rightarrow> int \<Rightarrow> int \<Rightarrow> 'a list \<Rightarrow> 'a list \<Rightarrow> ('a::zero) option" where
  "read_x g_id n has_left has_right lh rh xloc xrem =
     (if 0 \<le> g_id \<and> g_id < int n then buf_read xloc g_id
      else if g_id < 0 then
        (if has_left then (if lh + g_id \<ge> 0 then buf_read xrem (lh + g_id) else Some 0)
         else buf_read xloc 0)
      else
        (if has_right then (if g_id < int n + rh then buf_read xrem (lh + g_id - int n) else Some 0)
         else buf_read xloc (int n - 1)))"

subsection \<open>The loop of a kernel body and the store into \<open>y\<close>\<close>

text \<open>
  Both kernels run \<open>for(int j = -lhalo; j <= rhalo; j++) sum += c[lhalo + j] * v(j)\<close>
  from \<open>sum = 0\<close>; they differ in where the coefficient and the input value are
  read. The loop is a fold over the offsets in increasing order. When \<open>rhalo\<close> is
  \<open>INT_MAX\<close> the condition \<open>j <= rhalo\<close> holds of every \<open>int\<close>: after the step
  \<open>j = INT_MAX\<close> the counter wraps and the loop runs on until \<open>lhalo + j\<close>, which
  takes every value of an \<open>int\<close> on the way, is an index outside its buffer. The
  loop then yields nothing.
\<close>

definition conv_step ::
  "(int \<Rightarrow> 'a option) \<Rightarrow> (int \<Rightarrow> 'a option) \<Rightarrow> int \<Rightarrow> 'a option \<Rightarrow> ('a::{plus,times}) option" where
  "conv_step coef inp j acc = do { a \<leftarrow> acc; c \<leftarrow> coef j; v \<leftarrow> inp j; Some (a + c * v) }"

definition conv_loop ::
  "(int \<Rightarrow> 'a option) \<Rightarrow> (int \<Rightarrow> 'a option) \<Rightarrow> int \<Rightarrow> int \<Rightarrow> ('a::{zero,plus,times}) option" where
  "conv_loop coef inp lh rh =
     (if rh < 2 ^ 31 - 1 then fold (conv_step coef inp) [trunc_int (- lh)..rh] (Some 0) else None)"

text \<open>\<open>if (alpha) y[idx] = alpha * y[idx] + beta * sum; else y[idx] = beta * sum;\<close>
  The result is the value stored at \<open>y[idx]\<close>; \<open>acc\<close> is the source's \<open>sum\<close>.\<close>

definition store_y :: "'a \<Rightarrow> 'a \<Rightarrow> 'a list \<Rightarrow> nat \<Rightarrow> 'a \<Rightarrow> ('a::{zero,plus,times}) option" where
  "store_y alpha beta y idx acc =
     (if alpha \<noteq> 0 then do { y_old \<leftarrow> buf_read y (int idx); Some (alpha * y_old + beta * acc) }
      else if idx < length y then Some (beta * acc) else None)"

subsection \<open>The generic kernel\<close>

text \<open>
  The grid-stride loop of the source generator hands every index \<open>idx < n\<close> to one
  work item; a work item reads and writes \<open>y\<close> at its own index only. The kernel
  is therefore modelled element by element: \<open>slow_conv_item\<close> is the loop body
  at \<open>idx\<close>, \<open>slow_conv\<close> the buffer \<open>y\<close> after the launch. The index \<open>lhalo + j\<close> is
  an \<open>int\<close>; the position \<open>(ptrdiff_t)idx + j\<close> has 64 bits.
\<close>

definition slow_conv_item ::
  "nat \<Rightarrow> bool \<Rightarrow> bool \<Rightarrow> int \<Rightarrow> int \<Rightarrow> 'a list \<Rightarrow> 'a list \<Rightarrow> 'a list \<Rightarrow> 'a list \<Rightarrow> 'a \<Rightarrow> 'a \<Rightarrow> nat
     \<Rightarrow> ('a::{zero,plus,times}) option" where
  "slow_conv_item n has_left has_right lh rh sc xloc xrem y alpha beta idx = do {
     acc \<leftarrow> conv_loop (\<lambda>j. buf_read sc (trunc_int (lh + j)))
              (\<lambda>j. read_x (int idx + j) n has_left has_right lh rh xloc xrem) lh rh;
     store_y alpha beta y idx acc }"

definition slow_conv ::
  "nat \<Rightarrow> bool \<Rightarrow> bool \<Rightarrow> int \<Rightarrow> int \<Rightarrow> 'a list \<Rightarrow> 'a list \<Rightarrow> 'a list \<Rightarrow> 'a list \<Rightarrow> 'a \<Rightarrow> 'a
     \<Rightarrow> ('a::{zero,plus,times}) list option" where
  "slow_conv n has_left has_right lh rh sc xloc xrem y alpha beta = do {
     vs \<leftarrow> those (map (slow_conv_item n has_left has_right lh rh sc xloc xrem y alpha beta) [0..<n]);
     Some (vs @ drop n y) }"

subsection \<open>The tiled kernel\<close>

text \<open>\<open>async_work_group_copy(S, s, lhalo + rhalo + 1, 0)\<close>; the number of elements is
  computed in \<open>int\<close> and passed as a \<open>size_t\<close>, which a negative number makes
  larger than any buffer.\<close>

definition load_S :: "'a list \<Rightarrow> int \<Rightarrow> int \<Rightarrow> 'a list option" where
  "load_S sc lh rh =
     (let c = trunc_int (lh + rh + 1)
      in if 0 \<le> c \<and> c \<le> int (length sc) then Some (take (nat c) sc) else None)"

text \<open>
  The tile \<open>X\<close> of the work group whose first work item has the global index \<open>g0\<close>
  in the current round of the outer loop:
  \<open>for(int i = l_id, j = g_id - lhalo; i < block_size + lhalo + rhalo; i += block_size, j += block_size)
  X[i] = read_x(j, ...)\<close>.
  The slot \<open>X[i]\<close>, with \<open>i\<close> below the \<open>int\<close> \<open>block_size + lhalo + rhalo\<close>, is written by
  the work item with the local index \<open>l = i mod block_size\<close>, in the step of its
  loop in which its \<open>int j\<close>, that started at the \<open>long\<close> \<open>g_id - lhalo\<close> narrowed to an
  \<open>int\<close>, with \<open>g_id = g0 + l\<close>, has grown by \<open>i - l\<close>: \<open>j\<close> is \<open>g0 + i - lhalo\<close> modulo
  \<open>2^32\<close>. Every \<open>i\<close> that enters the body is below the bound and therefore exact;
  the increment of \<open>i\<close> that ends the loop is taken as exact too (it leaves the
  range of an \<open>int\<close> only with work groups of \<open>2^30\<close> work items or more).
\<close>

definition load_X ::
  "nat \<Rightarrow> nat \<Rightarrow> nat \<Rightarrow> bool \<Rightarrow> bool \<Rightarrow> int \<Rightarrow> int \<Rightarrow> 'a list \<Rightarrow> 'a list \<Rightarrow> ('a::zero) list option" where
  "load_X block_size g0 n has_left has_right lh rh xloc xrem =
     those (map (\<lambda>i. read_x (trunc_int (int g0 + int i - lh)) n has_left has_right lh rh xloc xrem)
                [0..<nat (trunc_int (int block_size + lh + rh))])"

text \<open>
  The work item that computes \<open>y[g_id]\<close>, \<open>g_id < n\<close>, has the local index
  \<open>g_id mod block_size\<close>, the global size being a multiple of the work-group
  size; after the barrier it sums over the tile of its group. The indices
  \<open>lhalo + j\<close> and \<open>lhalo + l_id + j\<close> are \<open>int\<close>s, and so are \<open>l_id\<close> and \<open>block_size\<close>,
  which the sums that wrap take modulo \<open>2^32\<close>.
\<close>

definition fast_conv_item ::
  "nat \<Rightarrow> nat \<Rightarrow> bool \<Rightarrow> bool \<Rightarrow> int \<Rightarrow> int \<Rightarrow> 'a list \<Rightarrow> 'a list \<Rightarrow> 'a list \<Rightarrow> 'a list \<Rightarrow> 'a \<Rightarrow> 'a \<Rightarrow> nat
     \<Rightarrow> ('a::{zero,plus,times}) option" where
  "fast_conv_item block_size n has_left has_right lh rh sc xloc xrem y alpha beta g_id = do {
     S \<leftarrow> load_S sc lh rh;
     X \<leftarrow> load_X block_size (g_id - g_id mod block_size) n has_left has_right lh rh xloc xrem;
     acc \<leftarrow> conv_loop (\<lambda>j. buf_read S (trunc_int (lh + j)))
              (\<lambda>j. buf_read X (trunc_int (lh + int (g_id mod block_size) + j))) lh rh;
     store_y alpha beta y g_id acc }"

definition fast_conv ::
  "nat \<Rightarrow> nat \<Rightarrow> bool \<Rightarrow> bool \<Rightarrow> int \<Rightarrow> int \<Rightarrow> 'a list \<Rightarrow> 'a list \<Rightarrow> 'a list \<Rightarrow> 'a list \<Rightarrow> 'a \<Rightarrow> 'a
     \<Rightarrow> ('a::{zero,plus,times}) list option" where
  "fast_conv block_size n has_left has_right lh rh sc xloc xrem y alpha beta = do {
     vs \<leftarrow> those (map (fast_conv_item block_size n has_left has_right lh rh sc xloc xrem y alpha beta)
                    [0..<n]);
     Some (vs @ drop n y) }"

subsection \<open>Partitioned vectors\<close>

text \<open>
  Modelled from the spec: \<open>vex::vector\<close> (vexcl/vector.hpp) is not among the
  sources. The spec describes it as ordered, contiguous, non-overlapping
  partitions of the global index range, one per device, with a start offset, a
  size and a read-back primitive. The model is the list of the partitions'
  device buffers; the global vector is their concatenation.
\<close>

type_synonym 'a vex_vector = "'a list list"

definition part_size :: "'a vex_vector \<Rightarrow> nat \<Rightarrow> nat option" where
  "part_size x d = (if d < length x then Some (length (x ! d)) else None)"

definition part_start :: "'a vex_vector \<Rightarrow> nat \<Rightarrow> nat option" where
  "part_start x d = (if d \<le> length x then Some (length (concat (take d x))) else None)"

definition vec_size :: "'a vex_vector \<Rightarrow> nat" where
  "vec_size x = length (concat x)"

text \<open>\<open>x[i]\<close>, an element of the global vector.\<close>

definition vec_at :: "'a vex_vector \<Rightarrow> int \<Rightarrow> 'a option" where
  "vec_at x i = buf_read (concat x) i"

text \<open>\<open>x.read_data(begin, size, ptr, CL_FALSE)\<close>: the elements that arrive at \<open>ptr\<close>.\<close>

definition read_data :: "'a vex_vector \<Rightarrow> int \<Rightarrow> int \<Rightarrow> 'a list option" where
  "read_data x begin sz =
     (if 0 \<le> begin \<and> 0 \<le> sz \<and> begin + sz \<le> int (vec_size x)
      then Some (take (nat sz) (drop (nat begin) (concat x))) else None)"

subsection \<open>The stencil and its construction\<close>

text \<open>
  A command queue stands for its device: whether \<open>is_cpu\<close> holds of it, and the
  work-group size of the kernel compiled for it (\<open>conv[d].workgroup_size()\<close>, which
  is also the local size of its launches).
\<close>

record device =
  is_cpu :: bool
  workgroup_size :: nat

text \<open>The members of \<open>stencil_base<T>\<close>; \<open>s_buf\<close> is the member \<open>s\<close>.\<close>

record 'a stencil_base =
  queue :: "device list"
  hbuf :: "'a list"
  dbuf :: "'a list list"
  s_buf :: "'a list list"
  lhalo :: int
  rhalo :: int

datatype kernel = slow_conv_kernel | fast_conv_kernel

record 'a stencil = "'a stencil_base" +
  conv :: "kernel list"
  loc_s :: "nat list"
  loc_x :: "nat list"

datatype failure = AssertionFailed

text \<open>
  The constructor of \<open>stencil_base\<close>. \<open>width\<close> and \<open>center\<close> are \<open>unsigned\<close>,
  the halo widths \<open>int\<close>: \<open>lhalo(center)\<close> and \<open>rhalo(width - center - 1)\<close> convert
  an unsigned 32-bit value to a signed one. \<open>hbuf\<close> is value-initialised;
  a device buffer is not initialised, \<open>mem d i\<close> is what element \<open>i\<close> of \<open>dbuf[d]\<close>
  holds after its allocation. The assertions are checked in the order of the
  source.
\<close>

definition stencil_base_ctor ::
  "(nat \<Rightarrow> nat \<Rightarrow> 'a) \<Rightarrow> device list \<Rightarrow> 32 word \<Rightarrow> 32 word \<Rightarrow> 'a list
     \<Rightarrow> failure + ('a::zero) stencil_base" where
  "stencil_base_ctor mem q width center coefs =
     (let lh = sint center; rh = sint (width - center - 1) in
      if length q = 0 then Inl AssertionFailed
      else if \<not> lh \<ge> 0 then Inl AssertionFailed
      else if \<not> rh \<ge> 0 then Inl AssertionFailed
      else if width = 0 then Inl AssertionFailed
      else if \<not> center < width then Inl AssertionFailed
      else Inr \<lparr> queue = q,
                 hbuf = replicate (length q * unat (width - 1)) 0,
                 dbuf = map (\<lambda>d. map (mem d) [0..<unat width]) [0..<length q],
                 s_buf = map (\<lambda>d. coefs) [0..<length q],
                 lhalo = lh, rhalo = rh \<rparr>)"

text \<open>\<open>stencil<T>::init\<close>: the kernel and the two local-memory sizes of one device.\<close>

definition init_device :: "nat \<Rightarrow> 32 word \<Rightarrow> int \<Rightarrow> int \<Rightarrow> device \<Rightarrow> kernel \<times> nat \<times> nat" where
  "init_device sizeof_T width lh rh dev =
     (if is_cpu dev \<or> width > 64 then (slow_conv_kernel, 1, 1)
      else (fast_conv_kernel, sizeof_T * unat width,
            sizeof_T * nat (int (workgroup_size dev) + lh + rh)))"

definition init :: "nat \<Rightarrow> 32 word \<Rightarrow> 'a stencil_base \<Rightarrow> 'a stencil" where
  "init sizeof_T width b =
     (let ks = map (init_device sizeof_T width (lhalo b) (rhalo b)) (queue b) in
      \<lparr> queue = queue b, hbuf = hbuf b, dbuf = dbuf b, s_buf = s_buf b,
        lhalo = lhalo b, rhalo = rhalo b,
        conv = map fst ks, loc_s = map (fst \<circ> snd) ks, loc_x = map (snd \<circ> snd) ks \<rparr>)"

text \<open>\<open>stencil(queue, st, center)\<close>: the width is \<open>static_cast<unsigned>(st.size())\<close>.\<close>

definition stencil_ctor ::
  "(nat \<Rightarrow> nat \<Rightarrow> 'a) \<Rightarrow> nat \<Rightarrow> device list \<Rightarrow> 'a list \<Rightarrow> 32 word \<Rightarrow> failure + ('a::zero) stencil" where
  "stencil_ctor mem sizeof_T q st center =
     (let width = (word_of_nat (length st) :: 32 word) in
      case stencil_base_ctor mem q width center st of
        Inl e \<Rightarrow> Inl e
      | Inr b \<Rightarrow> Inr (init sizeof_T width b))"

subsection \<open>Halo exchange\<close>

text \<open>A loop \<open>for(unsigned d = 0; d < queue.size(); d++)\<close> over the devices, which
  threads a state and stops at the first fault. The counter is taken to reach
  the number of queues, as it does with fewer than \<open>2^32\<close> of them.\<close>

fun for_loop :: "('i \<Rightarrow> 'st \<Rightarrow> 'st option) \<Rightarrow> 'i list \<Rightarrow> 'st \<Rightarrow> 'st option" where
  "for_loop body [] st = Some st"
| "for_loop body (d # ds) st = Option.bind (body d st) (for_loop body ds)"

text \<open>
  Both loops of \<open>exchange_halos\<close> compute the range of the global vector that
  feeds a side of partition \<open>d\<close> with the same three lines. On the left:
  \<open>end = x.part_start(d)\<close>, \<open>begin = end >= lhalo ? end - lhalo : 0\<close>,
  \<open>size = end - begin\<close>. On the right: \<open>begin = x.part_start(d + 1)\<close>,
  \<open>end = min(begin + rhalo, x.size())\<close>, \<open>size = end - begin\<close>. The result is the
  pair of \<open>begin\<close> and \<open>size\<close>.
\<close>

definition left_range :: "'a vex_vector \<Rightarrow> nat \<Rightarrow> int \<Rightarrow> (int \<times> int) option" where
  "left_range x d lh = do {
     e \<leftarrow> part_start x d;
     let b = (if int e \<ge> lh then int e - lh else 0);
     Some (b, int e - b) }"

definition right_range :: "'a vex_vector \<Rightarrow> nat \<Rightarrow> int \<Rightarrow> (int \<times> int) option" where
  "right_range x d rh = do {
     b \<leftarrow> part_start x (d + 1);
     let e = min (int b + rh) (int (vec_size x));
     Some (int b, e - int b) }"

text \<open>
  The body of the first loop of \<open>exchange_halos\<close> (get halos from neighbours).
  \<open>d * width + lhalo\<close> is computed in \<open>unsigned\<close>, \<open>d\<close> being one; the \<open>size_t\<close> \<open>size\<close>
  is subtracted from it in 64 bits.
\<close>

definition read_halos_dev ::
  "nat \<Rightarrow> int \<Rightarrow> int \<Rightarrow> int \<Rightarrow> 'a vex_vector \<Rightarrow> nat \<Rightarrow> 'a list \<Rightarrow> 'a list option" where
  "read_halos_dev nq lh rh width x d hb = do {
     psize \<leftarrow> part_size x d;
     if psize = 0 then Some hb
     else do {
       hb1 \<leftarrow> (if d > 0 \<and> lh > 0 then do {
                 (b, sz) \<leftarrow> left_range x d lh;
                 vals \<leftarrow> read_data x b sz;
                 buf_write hb (trunc_uint (int d * width + lh) - sz) vals }
               else Some hb);
       (if d + 1 < nq \<and> rh > 0 then do {
          (b, sz) \<leftarrow> right_range x d rh;
          vals \<leftarrow> read_data x b sz;
          buf_write hb1 (trunc_uint (int d * width + lh)) vals }
        else Some hb1) } }"

text \<open>
  The body of the second loop (write halos to a local buffer), on the pair of
  \<open>hbuf\<close> and \<open>dbuf\<close>. The offsets \<open>d * width\<close>, \<open>d * width + lhalo\<close> and
  \<open>(d + 1) * width\<close> are \<open>unsigned\<close>; \<open>size\<close> is added and subtracted in 64 bits.
  The upload copies \<open>width\<close> elements from \<open>&hbuf[d * width]\<close>.
\<close>

definition write_halos_dev ::
  "nat \<Rightarrow> int \<Rightarrow> int \<Rightarrow> int \<Rightarrow> 'a vex_vector \<Rightarrow> nat \<Rightarrow> 'a list \<times> 'a list list
     \<Rightarrow> ('a list \<times> 'a list list) option" where
  "write_halos_dev nq lh rh width x d st = do {
     let hb = fst st;
     let db = snd st;
     psize \<leftarrow> part_size x d;
     if psize = 0 then Some (hb, db)
     else do {
       hb1 \<leftarrow> (if d > 0 \<and> lh > 0 then do {
                 (b, sz) \<leftarrow> left_range x d lh;
                 v \<leftarrow> (if sz \<noteq> 0 then buf_read hb (trunc_uint (int d * width + lh) - sz)
                       else vec_at x 0);
                 buf_fill hb (trunc_uint (int d * width)) (trunc_uint (int d * width + lh) - sz) v }
               else Some hb);
       hb2 \<leftarrow> (if d + 1 < nq \<and> rh > 0 then do {
                 (b, sz) \<leftarrow> right_range x d rh;
                 v \<leftarrow> (if sz \<noteq> 0 then buf_read hb1 (trunc_uint (int d * width + lh) + sz - 1)
                       else vec_at x (int (vec_size x) - 1));
                 buf_fill hb1 (trunc_uint (int d * width + lh) + sz)
                   (trunc_uint ((int d + 1) * width)) v }
               else Some hb1);
       db1 \<leftarrow> (if (d > 0 \<and> lh > 0) \<or> (d + 1 < nq \<and> rh > 0) then do {
                 old \<leftarrow> buf_read db (int d);
                 vals \<leftarrow> (if 0 \<le> width \<and> trunc_uint (int d * width) + width \<le> int (length hb2)
                          then Some (take (nat width) (drop (nat (trunc_uint (int d * width))) hb2))
                          else None);
                 new \<leftarrow> buf_write old 0 vals;
                 Some (db[d := new]) }
               else Some db);
       Some (hb2, db1) } }"

text \<open>\<open>exchange_halos\<close>; \<open>int width = lhalo + rhalo\<close> is a sum of two \<open>int\<close>s.\<close>

definition exchange_halos ::
  "('a, 'm) stencil_base_scheme \<Rightarrow> 'a vex_vector \<Rightarrow> ('a, 'm) stencil_base_scheme option" where
  "exchange_halos st x =
     (let width = trunc_int (lhalo st + rhalo st); nq = length (queue st) in
      if nq \<le> 1 \<or> width \<le> 0 then Some st
      else do {
        hb \<leftarrow> for_loop (read_halos_dev nq (lhalo st) (rhalo st) width x) [0..<nq] (hbuf st);
        r \<leftarrow> for_loop (write_halos_dev nq (lhalo st) (rhalo st) width x) [0..<nq] (hb, dbuf st);
        Some (st\<lparr> hbuf := fst r, dbuf := snd r \<rparr>) })"

subsection \<open>The dispatcher\<close>

definition launch ::
  "kernel \<Rightarrow> nat \<Rightarrow> nat \<Rightarrow> bool \<Rightarrow> bool \<Rightarrow> int \<Rightarrow> int \<Rightarrow> 'a list \<Rightarrow> 'a list \<Rightarrow> 'a list \<Rightarrow> 'a list \<Rightarrow> 'a \<Rightarrow> 'a
     \<Rightarrow> ('a::{zero,plus,times}) list option" where
  "launch k block_size n has_left has_right lh rh sc xloc xrem y alpha beta =
     (case k of
        slow_conv_kernel \<Rightarrow> slow_conv n has_left has_right lh rh sc xloc xrem y alpha beta
      | fast_conv_kernel \<Rightarrow> fast_conv block_size n has_left has_right lh rh sc xloc xrem y alpha beta)"

text \<open>The body of the loop of \<open>stencil<T>::convolve\<close>, on the output vector.\<close>

definition convolve_dev ::
  "'a stencil \<Rightarrow> 'a vex_vector \<Rightarrow> 'a \<Rightarrow> 'a \<Rightarrow> nat \<Rightarrow> 'a vex_vector
     \<Rightarrow> ('a::{zero,plus,times}) vex_vector option" where
  "convolve_dev st x alpha beta d y = do {
     psize \<leftarrow> part_size x d;
     if psize \<noteq> 0 then do {
       let has_left = d > 0;
       let has_right = d + 1 < length (queue st);
       k \<leftarrow> buf_read (conv st) (int d);
       dev \<leftarrow> buf_read (queue st) (int d);
       sc \<leftarrow> buf_read (s_buf st) (int d);
       xloc \<leftarrow> buf_read x (int d);
       xrem \<leftarrow> buf_read (dbuf st) (int d);
       yd \<leftarrow> buf_read y (int d);
       yd' \<leftarrow> launch k (workgroup_size dev) psize has_left has_right (lhalo st) (rhalo st)
                sc xloc xrem yd alpha beta;
       Some (y[d := yd']) }
     else Some y }"

definition convolve ::
  "'a stencil \<Rightarrow> 'a vex_vector \<Rightarrow> 'a vex_vector \<Rightarrow> 'a \<Rightarrow> 'a
     \<Rightarrow> ('a stencil \<times> ('a::{zero,plus,times}) vex_vector) option" where
  "convolve st x y alpha beta = do {
     st' \<leftarrow> exchange_halos st x;
     y' \<leftarrow> for_loop (convolve_dev st' x alpha beta) [0..<length (queue st')] y;
     Some (st', y') }"

subsection \<open>The deferred transform\<close>

text \<open>The struct \<open>conv<S, V>\<close>, with its members \<open>s\<close>, \<open>x\<close> and \<open>scale\<close>.\<close>

record ('s, 'v, 'a) conv_expr =
  conv_s :: 's
  conv_x :: 'v
  scale :: 'a

definition conv_ctor :: "'s \<Rightarrow> 'v \<Rightarrow> ('s, 'v, 'a::one) conv_expr" where
  "conv_ctor st x = \<lparr> conv_s = st, conv_x = x, scale = 1 \<rparr>"

text \<open>\<open>conv::apply<negate, append>(y)\<close> for a stencil; \<open>appnd\<close> is the template argument \<open>append\<close>.\<close>

definition apply_conv ::
  "bool \<Rightarrow> bool \<Rightarrow> ('a stencil, 'a vex_vector, 'a) conv_expr \<Rightarrow> 'a vex_vector
     \<Rightarrow> ('a stencil \<times> ('a::{zero,one,plus,times,uminus}) vex_vector) option" where
  "apply_conv negate appnd c y =
     convolve (conv_s c) (conv_x c) y (if appnd then 1 else 0)
       (if negate then - scale c else scale c)"

text \<open>The two \<open>operator*\<close>.\<close>

definition stencil_times_vector ::
  "'a stencil \<Rightarrow> 'a vex_vector \<Rightarrow> ('a stencil, 'a vex_vector, 'a::one) conv_expr" where
  "stencil_times_vector st x = conv_ctor st x"

definition vector_times_stencil ::
  "'a vex_vector \<Rightarrow> 'a stencil \<Rightarrow> ('a stencil, 'a vex_vector, 'a::one) conv_expr" where
  "vector_times_stencil x st = conv_ctor st x"


section \<open>Notions used in the statements and proofs\<close>

definition read_policy ::
  "int \<Rightarrow> nat \<Rightarrow> bool \<Rightarrow> bool \<Rightarrow> int \<Rightarrow> int \<Rightarrow> 'a list \<Rightarrow> 'a list \<Rightarrow> 'a::zero" where
  "read_policy g_id n has_left has_right lh rh xloc xrem =
     (if 0 \<le> g_id \<and> g_id < int n then xloc ! nat g_id
      else if g_id < 0 then
        (if has_left then (if 0 \<le> lh + g_id then xrem ! nat (lh + g_id) else 0)
         else xloc ! 0)
      else
        (if has_right then (if g_id < int n + rh then xrem ! nat (lh + g_id - int n) else 0)
         else xloc ! (n - 1)))"

definition stencil_sum :: "'a list \<Rightarrow> (int \<Rightarrow> 'a) \<Rightarrow> int \<Rightarrow> int \<Rightarrow> 'a::{zero,plus,times}" where
  "stencil_sum sc v lh rh = fold (\<lambda>j a. a + sc ! nat (lh + j) * v j) [- lh..rh] 0"

definition read_pos :: "kernel \<Rightarrow> nat \<Rightarrow> int \<Rightarrow> int" where
  "read_pos k idx j =
     (case k of slow_conv_kernel \<Rightarrow> int idx + j | fast_conv_kernel \<Rightarrow> trunc_int (int idx + j))"

definition kernel_wf :: "nat \<Rightarrow> int \<Rightarrow> int \<Rightarrow> 'a list \<Rightarrow> 'a list \<Rightarrow> 'a list \<Rightarrow> 'a list \<Rightarrow> bool" where
  "kernel_wf n lh rh sc xloc xrem y \<longleftrightarrow>
     length xloc = n \<and> 0 < n \<and> 0 \<le> lh \<and> 0 \<le> rh \<and> lh + rh + 1 < 2 ^ 31
     \<and> lh + rh \<le> int (length xrem) \<and> lh + rh + 1 \<le> int (length sc) \<and> n \<le> length y"

definition part_begin :: "'a vex_vector \<Rightarrow> nat \<Rightarrow> nat" where
  "part_begin x d = length (concat (take d x))"

definition szl :: "'a vex_vector \<Rightarrow> nat \<Rightarrow> nat \<Rightarrow> nat" where
  "szl x d L = min L (part_begin x d)"

definition szr :: "'a vex_vector \<Rightarrow> nat \<Rightarrow> nat \<Rightarrow> nat" where
  "szr x d R = min R (length (concat x) - part_begin x (Suc d))"

definition got_left :: "'a vex_vector \<Rightarrow> nat \<Rightarrow> nat \<Rightarrow> 'a list" where
  "got_left x d L = take (szl x d L) (drop (part_begin x d - szl x d L) (concat x))"

definition got_right :: "'a vex_vector \<Rightarrow> nat \<Rightarrow> nat \<Rightarrow> 'a list" where
  "got_right x d R = take (szr x d R) (drop (part_begin x (Suc d)) (concat x))"

definition read_seg :: "'a vex_vector \<Rightarrow> nat \<Rightarrow> nat \<Rightarrow> nat \<Rightarrow> nat \<Rightarrow> 'a list \<Rightarrow> 'a list" where
  "read_seg x nq L R d S =
     (if x ! d = [] then S
      else let S1 = (if 0 < d \<and> 0 < L then take (L - szl x d L) S @ got_left x d L @ drop L S
                     else S)
           in if d + 1 < nq \<and> 0 < R
              then take L S1 @ got_right x d R @ drop (L + szr x d R) S1
              else S1)"

definition write_seg :: "'a vex_vector \<Rightarrow> nat \<Rightarrow> nat \<Rightarrow> nat \<Rightarrow> nat \<Rightarrow> 'a list \<Rightarrow> 'a list" where
  "write_seg x nq L R d S =
     (if x ! d = [] then S
      else let S1 = (if 0 < d \<and> 0 < L
                     then replicate (L - szl x d L)
                            (if szl x d L \<noteq> 0 then S ! (L - szl x d L) else concat x ! 0)
                          @ drop (L - szl x d L) S
                     else S)
           in if d + 1 < nq \<and> 0 < R
              then take (L + szr x d R) S1
                   @ replicate (R - szr x d R)
                       (if szr x d R \<noteq> 0 then S1 ! (L + szr x d R - 1)
                        else concat x ! (length (concat x) - 1))
              else S1)"

definition upload :: "'a vex_vector \<Rightarrow> nat \<Rightarrow> nat \<Rightarrow> nat \<Rightarrow> nat \<Rightarrow> 'a list \<Rightarrow> 'a list \<Rightarrow> 'a list" where
  "upload x nq L R d S old =
     (if x ! d \<noteq> [] \<and> ((0 < d \<and> 0 < L) \<or> (d + 1 < nq \<and> 0 < R)) then S @ drop (L + R) old else old)"

definition seg :: "nat \<Rightarrow> nat \<Rightarrow> 'a list \<Rightarrow> 'a list" where
  "seg w d hb = take w (drop (d * w) hb)"


definition halo_seg :: "'a vex_vector \<Rightarrow> nat \<Rightarrow> nat \<Rightarrow> nat \<Rightarrow> nat \<Rightarrow> 'a list \<Rightarrow> 'a list" where
  "halo_seg x nq L R d S = write_seg x nq L R d (read_seg x nq L R d S)"

definition base_wf :: "('a, 'm) stencil_base_scheme \<Rightarrow> bool" where
  "base_wf st \<longleftrightarrow>
     0 \<le> lhalo st \<and> 0 \<le> rhalo st
     \<and> length (hbuf st) = length (queue st) * nat (lhalo st + rhalo st)
     \<and> length (dbuf st) = length (queue st)
     \<and> list_all (\<lambda>b. lhalo st + rhalo st \<le> int (length b)) (dbuf st)"

definition left_halo :: "'a vex_vector \<Rightarrow> nat \<Rightarrow> nat \<Rightarrow> 'a list" where
  "left_halo x d L =
     replicate (L - szl x d L) (if szl x d L \<noteq> 0 then hd (got_left x d L) else hd (x ! d))
     @ got_left x d L"

definition right_halo :: "'a vex_vector \<Rightarrow> nat \<Rightarrow> nat \<Rightarrow> 'a list" where
  "right_halo x d R =
     got_right x d R
     @ replicate (R - szr x d R) (if szr x d R \<noteq> 0 then last (got_right x d R) else last (x ! d))"


definition halo_of :: "'a vex_vector \<Rightarrow> nat \<Rightarrow> int \<Rightarrow> int \<Rightarrow> 'a list" where
  "halo_of x d lh rh = left_halo x d (nat lh) @ right_halo x d (nat rh)"

definition conv_at :: "'a list \<Rightarrow> int \<Rightarrow> int \<Rightarrow> 'a vex_vector \<Rightarrow> nat \<Rightarrow> nat \<Rightarrow> 'a::{zero,plus,times}" where
  "conv_at sc lh rh x d idx =
     stencil_sum sc
       (\<lambda>j. read_policy (int idx + j) (length (x ! d)) (0 < d) (d + 1 < length x) lh rh (x ! d)
              (halo_of x d lh rh))
       lh rh"

definition stencil_wf :: "'a stencil \<Rightarrow> bool" where
  "stencil_wf st \<longleftrightarrow>
     base_wf st \<and> lhalo st < 2 ^ 31 \<and> rhalo st < 2 ^ 31
     \<and> length (s_buf st) = length (queue st)
     \<and> list_all (\<lambda>sc. lhalo st + rhalo st + 1 \<le> int (length sc)) (s_buf st)
     \<and> length (conv st) = length (queue st)
     \<and> list_all (\<lambda>dev. 0 < workgroup_size dev) (queue st)"

definition sizes_fit :: "'a stencil \<Rightarrow> bool" where
  "sizes_fit st \<longleftrightarrow>
     lhalo st + rhalo st + 1 < 2 ^ 31
     \<and> int (length (queue st)) * (lhalo st + rhalo st) < 2 ^ 32
     \<and> (\<forall>d < length (queue st). conv st ! d = fast_conv_kernel \<longrightarrow>
          int (workgroup_size (queue st ! d)) + lhalo st + rhalo st < 2 ^ 31)"

definition kernel_sum ::
  "kernel \<Rightarrow> 'a list \<Rightarrow> int \<Rightarrow> int \<Rightarrow> 'a vex_vector \<Rightarrow> nat \<Rightarrow> nat \<Rightarrow> 'a::{zero,plus,times}" where
  "kernel_sum k sc lh rh x d idx =
     stencil_sum sc
       (\<lambda>j. read_policy (read_pos k idx j) (length (x ! d)) (0 < d) (d + 1 < length x) lh rh
              (x ! d) (halo_of x d lh rh))
       lh rh"

definition conv_dev :: "'a stencil \<Rightarrow> 'a vex_vector \<Rightarrow> 'a \<Rightarrow> 'a \<Rightarrow> nat \<Rightarrow> 'a list \<Rightarrow> ('a::{zero,plus,times}) list" where
  "conv_dev st x alpha beta d yd =
     (if x ! d = [] then yd
      else map (\<lambda>idx. if alpha = 0
                      then beta * kernel_sum (conv st ! d) (s_buf st ! d) (lhalo st) (rhalo st) x d idx
                      else alpha * yd ! idx
                           + beta * kernel_sum (conv st ! d) (s_buf st ! d) (lhalo st) (rhalo st) x d idx)
             [0..<length (x ! d)]
           @ drop (length (x ! d)) yd)"

section \<open>Properties\<close>

subsection \<open>Values that the machine integers hold\<close>

lemma trunc_int_id: "- (2 ^ 31) \<le> v \<Longrightarrow> v < 2 ^ 31 \<Longrightarrow> trunc_int v = v"
  by (simp add: trunc_int_def signed_of_int signed_take_bit_int_eq_self)

lemma trunc_int_2p31: "trunc_int 2147483648 = - 2147483648"
  by (simp add: trunc_int_def)

lemma trunc_int_small: "trunc_int 0 = 0" "trunc_int 1 = 1"
  by (simp_all add: trunc_int_def)

lemma trunc_uint_id: "0 \<le> v \<Longrightarrow> v < 2 ^ 32 \<Longrightarrow> trunc_uint v = v"
  by (simp add: trunc_uint_def uint_word_of_int)

subsection \<open>The read policy\<close>

text \<open>
  C2. In a partition of local size \<open>n\<close>, with the halo buffer \<open>xrem\<close> holding at
  least \<open>lhalo + rhalo\<close> elements, \<open>read_x\<close> never leaves a buffer and returns: the
  local element at \<open>g_id\<close> when \<open>0 \<le> g_id < n\<close>; for \<open>g_id < 0\<close> the halo element at
  \<open>lhalo + g_id\<close> if there is a left neighbour and that index is not negative, zero
  if there is one and the index is negative, the local element 0 if there is
  none; for \<open>g_id \<ge> n\<close> the halo element at \<open>lhalo + g_id - n\<close> if there is a right
  neighbour and \<open>g_id < n + rhalo\<close>, zero if there is one and \<open>g_id \<ge> n + rhalo\<close>,
  the local element \<open>n - 1\<close> if there is none.
\<close>

theorem read_x_policy:
  assumes "length xloc = n" and "0 < n" and "0 \<le> lh" and "0 \<le> rh"
    and "lh + rh \<le> int (length xrem)"
  shows "read_x g_id n has_left has_right lh rh xloc xrem =
     Some (if 0 \<le> g_id \<and> g_id < int n then xloc ! nat g_id
           else if g_id < 0 then
             (if has_left then (if 0 \<le> lh + g_id then xrem ! nat (lh + g_id) else 0)
              else xloc ! 0)
           else
             (if has_right then (if g_id < int n + rh then xrem ! nat (lh + g_id - int n) else 0)
              else xloc ! (n - 1)))"
  using assms by (auto simp: read_x_def buf_read_def nat_diff_distrib)

theorem read_x_policy_witness:
  "read_x (- 1) 3 True False 1 1 [10, 20, 30] [7, 8, 9 :: int] = Some 7
   \<and> read_x 3 3 True True 1 1 [10, 20, 30] [7, 8, 9 :: int] = Some 8
   \<and> read_x 3 3 True False 1 1 [10, 20, 30] [7, 8, 9 :: int] = Some 30
   \<and> read_x 4 3 True True 1 1 [10, 20, 30] [7, 8, 9 :: int] = Some 0"
  using read_x_policy [of "[10, 20, 30]" 3 1 1 "[7, 8, 9 :: int]" "- 1" True False]
        read_x_policy [of "[10, 20, 30]" 3 1 1 "[7, 8, 9 :: int]" 3 True True]
        read_x_policy [of "[10, 20, 30]" 3 1 1 "[7, 8, 9 :: int]" 3 True False]
        read_x_policy [of "[10, 20, 30]" 3 1 1 "[7, 8, 9 :: int]" 4 True True]
  by simp

subsection \<open>Halo exchange without neighbours or halo\<close>

text \<open>
  C7. With at most one queue, or with \<open>lhalo + rhalo = 0\<close>, \<open>exchange_halos\<close>
  returns at once: the host buffer and the device buffers of the stencil are
  what they were (the input vector is a constant argument).
\<close>

theorem exchange_halos_noop:
  "length (queue st) \<le> 1 \<or> lhalo st + rhalo st = 0 \<Longrightarrow> exchange_halos st x = Some st"
  by (auto simp: exchange_halos_def Let_def trunc_int_small)

theorem exchange_halos_noop_witness:
  "exchange_halos \<lparr> queue = [\<lparr> is_cpu = False, workgroup_size = 4 \<rparr>], hbuf = [0, 0 :: int],
       dbuf = [[5, 6, 7]], s_buf = [[1, - 2, 1]], lhalo = 1, rhalo = 1 \<rparr> [[1, 2, 3]]
     = Some \<lparr> queue = [\<lparr> is_cpu = False, workgroup_size = 4 \<rparr>], hbuf = [0, 0 :: int],
       dbuf = [[5, 6, 7]], s_buf = [[1, - 2, 1]], lhalo = 1, rhalo = 1 \<rparr>"
  using exchange_halos_noop [of "\<lparr> queue = [\<lparr> is_cpu = False, workgroup_size = 4 \<rparr>],
       hbuf = [0, 0 :: int], dbuf = [[5, 6, 7]], s_buf = [[1, - 2, 1]], lhalo = 1, rhalo = 1 \<rparr>"
       "[[1, 2, 3]]"]
  by simp

subsection \<open>The multiplication shorthand\<close>

text \<open>
  C10. \<open>s * x\<close> and \<open>x * s\<close> build the same transform: the stencil, the input and
  the scale 1. Applying either to \<open>y\<close> is the call of \<open>convolve\<close> with \<open>alpha = 0\<close>
  (1 when appended) and \<open>beta = scale\<close> (\<open>- scale\<close> when negated).
\<close>

theorem times_commutes:
  "stencil_times_vector st x = vector_times_stencil x st
   \<and> conv_s (stencil_times_vector st x) = st
   \<and> conv_x (stencil_times_vector st x) = x
   \<and> scale (stencil_times_vector st x) = 1
   \<and> apply_conv negate appnd (stencil_times_vector st x) y =
       convolve st x y (if appnd then 1 else 0) (if negate then - 1 else 1)
   \<and> apply_conv negate appnd (vector_times_stencil x st) y =
       apply_conv negate appnd (stencil_times_vector st x) y"
  by (simp add: stencil_times_vector_def vector_times_stencil_def conv_ctor_def apply_conv_def)

subsection \<open>The assertions of the constructor\<close>

lemma sint32: "sint (w :: 32 word) = (if uint w < 2 ^ 31 then uint w else uint w - 2 ^ 32)"
proof -
  have b: "uint w < 2 ^ 32" using uint_lt2p [of w] by simp
  have a: "0 \<le> uint w" by simp
  have s: "sint w = (uint w + 2 ^ 31) mod 2 ^ 32 - 2 ^ 31"
    by (simp add: sint_uint signed_take_bit_eq_take_bit_shift take_bit_eq_mod)
  show ?thesis
  proof (cases "uint w < 2 ^ 31")
    case True
    then have "(uint w + 2 ^ 31) mod 2 ^ 32 = uint w + 2 ^ 31"
      using a by (simp add: mod_pos_pos_trivial)
    with True s show ?thesis by simp
  next
    case False
    then have "(uint w + 2 ^ 31) mod 2 ^ 32 = uint w + 2 ^ 31 - 2 ^ 32"
      using b by (simp add: mod_pos_geq mod_pos_pos_trivial)
    with False s show ?thesis by simp
  qed
qed

lemma uint_rhalo:
  fixes width center :: "32 word"
  assumes "center < width"
  shows "uint (width - center - 1) = uint width - uint center - 1"
proof -
  have lt: "uint center < uint width" using assms by (simp add: word_less_def)
  then have 1: "uint (width - center) = uint width - uint center"
    using uint_sub_lem [of center width] by simp
  then have "uint (1 :: 32 word) \<le> uint (width - center)"
    using lt by simp
  then have "uint (width - center - 1) = uint (width - center) - uint (1 :: 32 word)"
    using uint_sub_lem [of 1 "width - center"] by simp
  with 1 show ?thesis by simp
qed

lemma ctor_fails:
  "q = [] \<or> width = 0 \<or> \<not> center < width \<or> sint center < 0 \<or> sint (width - center - 1) < 0
    \<Longrightarrow> stencil_base_ctor mem q width center coefs = Inl AssertionFailed"
  by (auto simp: stencil_base_ctor_def Let_def)

lemma ctor_succeeds:
  assumes "q \<noteq> []" "center < width" "uint center < 2 ^ 31" "uint width - uint center - 1 < 2 ^ 31"
  shows "\<exists>b. stencil_base_ctor mem q width center coefs = Inr b \<and> queue b = q
           \<and> lhalo b = uint center \<and> rhalo b = uint width - uint center - 1"
proof -
  have w: "width \<noteq> 0" using assms(2) by (auto simp: word_less_def)
  have l: "sint center = uint center" using assms(3) by (simp add: sint32)
  have r: "sint (width - center - 1) = uint width - uint center - 1"
    using assms(2,4) by (simp add: sint32 uint_rhalo)
  have "0 \<le> uint width - uint center - 1" using assms(2) by (simp add: word_less_def)
  then show ?thesis using assms(1,2) w l r
    by (simp add: stencil_base_ctor_def Let_def)
qed

lemma ctor_Inr_iff:
  "(\<exists>b. stencil_base_ctor mem q width center coefs = Inr b) \<longleftrightarrow>
     q \<noteq> [] \<and> center < width \<and> uint center < 2 ^ 31 \<and> uint width - uint center - 1 < 2 ^ 31"
proof
  assume "\<exists>b. stencil_base_ctor mem q width center coefs = Inr b"
  then have a: "q \<noteq> []" "center < width" "0 \<le> sint center" "0 \<le> sint (width - center - 1)"
    by (auto simp: stencil_base_ctor_def Let_def split: if_splits)
  have "uint center < 2 ^ 31"
    using a(3) uint_lt2p [of center] by (simp add: sint32 split: if_splits)
  moreover have "uint width - uint center - 1 < 2 ^ 31"
    using a(2,4) uint_lt2p [of "width - center - 1"]
    by (simp add: sint32 uint_rhalo split: if_splits)
  ultimately show "q \<noteq> [] \<and> center < width \<and> uint center < 2 ^ 31
      \<and> uint width - uint center - 1 < 2 ^ 31"
    using a by simp
next
  assume "q \<noteq> [] \<and> center < width \<and> uint center < 2 ^ 31 \<and> uint width - uint center - 1 < 2 ^ 31"
  then show "\<exists>b. stencil_base_ctor mem q width center coefs = Inr b"
    using ctor_succeeds [of q center width mem coefs] by blast
qed

text \<open>
  C8, as the source has it. A violated precondition (no queue, width 0, a
  center that is not below the width, a halo width that is negative as an
  \<open>int\<close>) fails an assertion. With a queue, \<open>center < width\<close> and both halo widths
  in the range of \<open>int\<close> (\<open>center < 2^31\<close> and \<open>width - center - 1 < 2^31\<close>) every
  assertion holds, and \<open>lhalo = center\<close>, \<open>rhalo = width - center - 1\<close>,
  \<open>lhalo + rhalo + 1 = width\<close>. These are all the constructions that succeed.
\<close>

theorem stencil_base_ctor_asserts:
  "(q = [] \<or> width = 0 \<or> \<not> center < width \<or> sint center < 0 \<or> sint (width - center - 1) < 0
      \<longrightarrow> stencil_base_ctor mem q width center coefs = Inl AssertionFailed)
   \<and> (q \<noteq> [] \<and> center < width \<and> uint center < 2 ^ 31 \<and> uint width - uint center - 1 < 2 ^ 31
      \<longrightarrow> (\<exists>b. stencil_base_ctor mem q width center coefs = Inr b
             \<and> lhalo b = uint center \<and> rhalo b = uint width - uint center - 1
             \<and> lhalo b + rhalo b + 1 = uint width))
   \<and> ((\<exists>b. stencil_base_ctor mem q width center coefs = Inr b) \<longleftrightarrow>
        q \<noteq> [] \<and> center < width \<and> uint center < 2 ^ 31 \<and> uint width - uint center - 1 < 2 ^ 31)"
proof (intro conjI impI)
  assume "q = [] \<or> width = 0 \<or> \<not> center < width \<or> sint center < 0 \<or> sint (width - center - 1) < 0"
  then show "stencil_base_ctor mem q width center coefs = Inl AssertionFailed"
    by (rule ctor_fails)
next
  assume "q \<noteq> [] \<and> center < width \<and> uint center < 2 ^ 31 \<and> uint width - uint center - 1 < 2 ^ 31"
  then obtain b where "stencil_base_ctor mem q width center coefs = Inr b"
      "lhalo b = uint center" "rhalo b = uint width - uint center - 1"
    using ctor_succeeds [of q center width mem coefs] by blast
  then show "\<exists>b. stencil_base_ctor mem q width center coefs = Inr b
             \<and> lhalo b = uint center \<and> rhalo b = uint width - uint center - 1
             \<and> lhalo b + rhalo b + 1 = uint width"
    by simp
next
  show "(\<exists>b. stencil_base_ctor mem q width center coefs = Inr b) \<longleftrightarrow>
        q \<noteq> [] \<and> center < width \<and> uint center < 2 ^ 31 \<and> uint width - uint center - 1 < 2 ^ 31"
    by (rule ctor_Inr_iff)
qed

theorem stencil_base_ctor_asserts_witness:
  "stencil_base_ctor (\<lambda>d i. 0 :: int) [\<lparr> is_cpu = False, workgroup_size = 256 \<rparr>] 3 5 []
     = Inl AssertionFailed
   \<and> (\<exists>b. stencil_base_ctor (\<lambda>d i. 0 :: int) [\<lparr> is_cpu = False, workgroup_size = 256 \<rparr>] 3 1 []
            = Inr b \<and> lhalo b = 1 \<and> rhalo b = 1)"
  using stencil_base_ctor_asserts [of "[\<lparr> is_cpu = False, workgroup_size = 256 \<rparr>]" 3 5
          "\<lambda>d i. 0 :: int" "[]"]
        stencil_base_ctor_asserts [of "[\<lparr> is_cpu = False, workgroup_size = 256 \<rparr>]" 3 1
          "\<lambda>d i. 0 :: int" "[]"]
  by simp blast

text \<open>
  The three preconditions alone do not suffice: with one queue, width
  \<open>2^31 + 1\<close> and center 0 the derived \<open>rhalo\<close> is \<open>2^31\<close>, which is negative as an
  \<open>int\<close>, and the assertion \<open>rhalo >= 0\<close> fails.
\<close>

theorem stencil_base_ctor_counterexample:
  "[\<lparr> is_cpu = False, workgroup_size = 256 \<rparr>] \<noteq> []
   \<and> (1 :: 32 word) \<le> 2147483649
   \<and> (0 :: 32 word) \<le> 0 \<and> (0 :: 32 word) < 2147483649
   \<and> stencil_base_ctor (\<lambda>d i. 0 :: int) [\<lparr> is_cpu = False, workgroup_size = 256 \<rparr>] 2147483649 0 []
       = Inl AssertionFailed"
  by (simp add: stencil_base_ctor_def Let_def)

subsection \<open>The two kernels\<close>

lemma those_map_Some:
  "(\<And>x. x \<in> set xs \<Longrightarrow> f x = Some (g x)) \<Longrightarrow> those (map f xs) = Some (map g xs)"
  by (induction xs) auto

lemma those_map_cong:
  assumes "\<And>x. x \<in> set xs \<Longrightarrow> f x = g x"
  shows "those (map f xs) = those (map g xs)"
proof -
  have "map f xs = map g xs" using assms by simp
  then show ?thesis by (rule arg_cong)
qed

lemma conv_loop_cong:
  assumes "\<And>j. - lh \<le> j \<Longrightarrow> j \<le> rh \<Longrightarrow> coef j = coef' j"
    and "\<And>j. - lh \<le> j \<Longrightarrow> j \<le> rh \<Longrightarrow> inp j = inp' j"
    and "0 \<le> lh" and "lh < 2 ^ 31"
  shows "conv_loop coef inp lh rh = conv_loop coef' inp' lh rh"
proof -
  have t: "trunc_int (- lh) = - lh" using assms(3,4) by (intro trunc_int_id) auto
  have "fold (conv_step coef inp) [- lh..rh] (Some 0) = fold (conv_step coef' inp') [- lh..rh] (Some 0)"
    by (rule fold_cong) (auto simp: conv_step_def fun_eq_iff assms(1,2))
  then show ?thesis unfolding conv_loop_def t by simp
qed

lemma fold_conv_step:
  assumes "\<And>j. j \<in> set js \<Longrightarrow> coef j = Some (c j) \<and> inp j = Some (v j)"
  shows "fold (conv_step coef inp) js (Some a) = Some (fold (\<lambda>j a. a + c j * v j) js a)"
  using assms by (induction js arbitrary: a) (auto simp: conv_step_def)

lemma conv_loop_Some:
  assumes "\<And>j. - lh \<le> j \<Longrightarrow> j \<le> rh \<Longrightarrow> coef j = Some (c j)"
    and "\<And>j. - lh \<le> j \<Longrightarrow> j \<le> rh \<Longrightarrow> inp j = Some (v j)"
    and "0 \<le> lh" and "lh < 2 ^ 31" and "rh < 2 ^ 31 - 1"
  shows "conv_loop coef inp lh rh = Some (fold (\<lambda>j a. a + c j * v j) [- lh..rh] 0)"
proof -
  have t: "trunc_int (- lh) = - lh" using assms(3,4) by (intro trunc_int_id) auto
  have "fold (conv_step coef inp) [- lh..rh] (Some 0) = Some (fold (\<lambda>j a. a + c j * v j) [- lh..rh] 0)"
    by (rule fold_conv_step) (simp add: assms(1,2))
  then show ?thesis unfolding conv_loop_def t using assms(5) by simp
qed


lemma read_x_eq:
  assumes "length xloc = n" and "0 < n" and "0 \<le> lh" and "0 \<le> rh"
    and "lh + rh \<le> int (length xrem)"
  shows "read_x g_id n has_left has_right lh rh xloc xrem =
     Some (read_policy g_id n has_left has_right lh rh xloc xrem)"
  using assms by (auto simp: read_x_def read_policy_def buf_read_def nat_diff_distrib)

lemma kernel_wf_facts:
  assumes "kernel_wf n lh rh sc xloc xrem y"
  shows "length xloc = n" and "0 < n" and "0 \<le> lh" and "0 \<le> rh" and "lh + rh \<le> int (length xrem)"
    and "lh + rh + 1 \<le> int (length sc)" and "lh + rh + 1 < 2 ^ 31" and "lh < 2 ^ 31"
    and "rh < 2 ^ 31 - 1" and "n \<le> length y"
  using assms by (auto simp: kernel_wf_def)

lemma coef_index:
  assumes "0 \<le> lh" and "0 \<le> rh" and "lh + rh + 1 < 2 ^ 31" and "- lh \<le> j" and "j \<le> rh"
  shows "trunc_int (lh + j) = lh + j"
  using assms by (intro trunc_int_id) auto

lemma slow_conv_item_eq:
  assumes wf: "kernel_wf n lh rh sc xloc xrem y" and "idx < n"
  shows "slow_conv_item n hl hr lh rh sc xloc xrem y alpha beta idx =
     Some (let total = stencil_sum sc (\<lambda>j. read_policy (int idx + j) n hl hr lh rh xloc xrem) lh rh
           in if alpha = 0 then beta * total else alpha * y ! idx + beta * total)"
proof -
  note w = kernel_wf_facts [OF wf]
  have "conv_loop (\<lambda>j. buf_read sc (trunc_int (lh + j)))
          (\<lambda>j. read_x (int idx + j) n hl hr lh rh xloc xrem) lh rh
      = Some (fold (\<lambda>j a. a + sc ! nat (lh + j) * read_policy (int idx + j) n hl hr lh rh xloc xrem)
                [- lh..rh] 0)"
  proof (rule conv_loop_Some)
    fix j assume j: "- lh \<le> j" "j \<le> rh"
    show "buf_read sc (trunc_int (lh + j)) = Some (sc ! nat (lh + j))"
      unfolding coef_index [OF w(3,4,7) j] using j w(6) by (simp add: buf_read_def)
    show "read_x (int idx + j) n hl hr lh rh xloc xrem
        = Some (read_policy (int idx + j) n hl hr lh rh xloc xrem)"
      using w(1-5) by (rule read_x_eq)
  qed (rule w(3) w(8) w(9))+
  then show ?thesis using assms(2) w(10)
    by (simp add: slow_conv_item_def store_y_def buf_read_def stencil_sum_def Let_def)
qed

lemma slow_conv_eq:
  assumes "kernel_wf n lh rh sc xloc xrem y"
  shows "slow_conv n hl hr lh rh sc xloc xrem y alpha beta =
     Some (map (\<lambda>idx. let total = stencil_sum sc (\<lambda>j. read_policy (int idx + j) n hl hr lh rh xloc xrem) lh rh
           in if alpha = 0 then beta * total else alpha * y ! idx + beta * total) [0..<n] @ drop n y)"
proof -
  have "those (map (slow_conv_item n hl hr lh rh sc xloc xrem y alpha beta) [0..<n])
     = Some (map (\<lambda>idx. let total = stencil_sum sc (\<lambda>j. read_policy (int idx + j) n hl hr lh rh xloc xrem) lh rh
           in if alpha = 0 then beta * total else alpha * y ! idx + beta * total) [0..<n])"
    using assms by (intro those_map_Some slow_conv_item_eq) auto
  then show ?thesis by (simp add: slow_conv_def)
qed

lemma load_X_val:
  assumes "length xloc = n" and "0 < n" and "0 \<le> lh" and "0 \<le> rh"
    and "lh + rh \<le> int (length xrem)" and "int bs + lh + rh < 2 ^ 31"
  shows "load_X bs g0 n hl hr lh rh xloc xrem =
     Some (map (\<lambda>i. read_policy (trunc_int (int g0 + int i - lh)) n hl hr lh rh xloc xrem)
             [0..<nat (int bs + lh + rh)])"
proof -
  have t: "trunc_int (int bs + lh + rh) = int bs + lh + rh"
    using assms(3,4,6) by (intro trunc_int_id) auto
  show ?thesis
    unfolding load_X_def t using assms(1-5) by (intro those_map_Some read_x_eq)
qed

lemma fast_conv_item_eq:
  assumes wf: "kernel_wf n lh rh sc xloc xrem y" and "idx < n" and "0 < bs"
    and bs: "int bs + lh + rh < 2 ^ 31"
  shows "fast_conv_item bs n hl hr lh rh sc xloc xrem y alpha beta idx =
     Some (let total = stencil_sum sc
                         (\<lambda>j. read_policy (trunc_int (int idx + j)) n hl hr lh rh xloc xrem) lh rh
           in if alpha = 0 then beta * total else alpha * y ! idx + beta * total)"
proof -
  note w = kernel_wf_facts [OF wf]
  let ?g0 = "idx - idx mod bs"
  let ?S = "take (nat (lh + rh + 1)) sc"
  let ?X = "map (\<lambda>i. read_policy (trunc_int (int ?g0 + int i - lh)) n hl hr lh rh xloc xrem)
             [0..<nat (int bs + lh + rh)]"
  have c: "trunc_int (lh + rh + 1) = lh + rh + 1"
    using w(3,4,7) by (intro trunc_int_id) auto
  have S: "load_S sc lh rh = Some ?S" using w(3,4,6) by (simp add: load_S_def c)
  have X: "load_X bs ?g0 n hl hr lh rh xloc xrem = Some ?X"
    using w(1-5) bs by (rule load_X_val)
  have m: "idx mod bs < bs" using assms(3) by simp
  have g0: "int ?g0 = int idx - int (idx mod bs)" by (simp add: of_nat_diff)
  have "conv_loop (\<lambda>j. buf_read ?S (trunc_int (lh + j)))
          (\<lambda>j. buf_read ?X (trunc_int (lh + int (idx mod bs) + j))) lh rh
      = Some (fold (\<lambda>j a. a + sc ! nat (lh + j)
                     * read_policy (trunc_int (int idx + j)) n hl hr lh rh xloc xrem) [- lh..rh] 0)"
  proof (rule conv_loop_Some)
    fix j assume j: "- lh \<le> j" "j \<le> rh"
    show "buf_read ?S (trunc_int (lh + j)) = Some (sc ! nat (lh + j))"
      unfolding coef_index [OF w(3,4,7) j] using j w(3,4,6) by (auto simp: buf_read_def)
    have lo: "0 \<le> lh + int (idx mod bs) + j" using j by simp
    have hi: "lh + int (idx mod bs) + j < int bs + lh + rh" using j m by simp
    have t: "trunc_int (lh + int (idx mod bs) + j) = lh + int (idx mod bs) + j"
      using lo hi bs by (intro trunc_int_id) auto
    have p: "int ?g0 + int (nat (lh + int (idx mod bs) + j)) - lh = int idx + j"
      using lo g0 by simp
    have "buf_read ?X (lh + int (idx mod bs) + j)
        = Some (read_policy (trunc_int (int ?g0 + int (nat (lh + int (idx mod bs) + j)) - lh))
                  n hl hr lh rh xloc xrem)"
      using lo hi by (simp add: buf_read_def nat_less_iff)
    then show "buf_read ?X (trunc_int (lh + int (idx mod bs) + j))
        = Some (read_policy (trunc_int (int idx + j)) n hl hr lh rh xloc xrem)"
      unfolding t p .
  qed (rule w(3) w(8) w(9))+
  then show ?thesis using S X assms(2) w(10)
    by (simp add: fast_conv_item_def stencil_sum_def store_y_def buf_read_def Let_def)
qed

lemma fast_conv_item_eq_slow:
  assumes wf: "kernel_wf n lh rh sc xloc xrem y" and "idx < n" and "0 < bs"
    and "int bs + lh + rh < 2 ^ 31" and "int idx + rh < 2 ^ 31"
  shows "fast_conv_item bs n hl hr lh rh sc xloc xrem y alpha beta idx =
         slow_conv_item n hl hr lh rh sc xloc xrem y alpha beta idx"
proof -
  note w = kernel_wf_facts [OF wf]
  have "stencil_sum sc (\<lambda>j. read_policy (trunc_int (int idx + j)) n hl hr lh rh xloc xrem) lh rh
      = stencil_sum sc (\<lambda>j. read_policy (int idx + j) n hl hr lh rh xloc xrem) lh rh"
    unfolding stencil_sum_def
  proof (rule fold_cong [OF refl refl])
    fix j assume "j \<in> set [- lh..rh]"
    then have "trunc_int (int idx + j) = int idx + j"
      using assms(5) w(8) by (intro trunc_int_id) auto
    then show "(\<lambda>a. a + sc ! nat (lh + j) * read_policy (trunc_int (int idx + j)) n hl hr lh rh xloc xrem)
        = (\<lambda>a. a + sc ! nat (lh + j) * read_policy (int idx + j) n hl hr lh rh xloc xrem)"
      by simp
  qed
  then show ?thesis
    unfolding fast_conv_item_eq [OF assms(1-4)] slow_conv_item_eq [OF assms(1,2)] by simp
qed

lemma fast_conv_eq_slow:
  assumes "kernel_wf n lh rh sc xloc xrem y"
    and "0 < bs" and "int bs + lh + rh < 2 ^ 31" and "int n + rh \<le> 2 ^ 31"
  shows "fast_conv bs n hl hr lh rh sc xloc xrem y alpha beta =
         slow_conv n hl hr lh rh sc xloc xrem y alpha beta"
proof -
  have "those (map (fast_conv_item bs n hl hr lh rh sc xloc xrem y alpha beta) [0..<n])
      = those (map (slow_conv_item n hl hr lh rh sc xloc xrem y alpha beta) [0..<n])"
    using assms by (intro those_map_cong fast_conv_item_eq_slow) auto
  then show ?thesis by (simp add: fast_conv_def slow_conv_def)
qed

lemma read_pos_exact:
  assumes "k = fast_conv_kernel \<longrightarrow> - (2 ^ 31) \<le> int idx + j \<and> int idx + j < 2 ^ 31"
  shows "read_pos k idx j = int idx + j"
  using assms by (cases k) (simp_all add: read_pos_def trunc_int_id)

lemma stencil_sum_cong:
  assumes "\<And>j. - lh \<le> j \<Longrightarrow> j \<le> rh \<Longrightarrow> v j = v' j"
  shows "stencil_sum sc v lh rh = stencil_sum sc v' lh rh"
  unfolding stencil_sum_def by (rule fold_cong) (auto simp: assms)

lemma fast_conv_eq:
  assumes "kernel_wf n lh rh sc xloc xrem y" and "0 < bs" and "int bs + lh + rh < 2 ^ 31"
  shows "fast_conv bs n hl hr lh rh sc xloc xrem y alpha beta =
     Some (map (\<lambda>idx. let total = stencil_sum sc
                            (\<lambda>j. read_policy (trunc_int (int idx + j)) n hl hr lh rh xloc xrem) lh rh
           in if alpha = 0 then beta * total else alpha * y ! idx + beta * total) [0..<n] @ drop n y)"
proof -
  have "those (map (fast_conv_item bs n hl hr lh rh sc xloc xrem y alpha beta) [0..<n])
     = Some (map (\<lambda>idx. let total = stencil_sum sc
                            (\<lambda>j. read_policy (trunc_int (int idx + j)) n hl hr lh rh xloc xrem) lh rh
           in if alpha = 0 then beta * total else alpha * y ! idx + beta * total) [0..<n])"
    using assms by (intro those_map_Some fast_conv_item_eq) auto
  then show ?thesis by (simp add: fast_conv_def)
qed

lemma those_map_nth:
  "those (map g xs) = Some ys \<Longrightarrow> i < length xs \<Longrightarrow> g (xs ! i) = Some (ys ! i)"
proof (induction xs arbitrary: ys i)
  case Nil
  then show ?case by simp
next
  case (Cons a xs)
  then show ?case by (cases i) (auto split: option.splits)
qed

text \<open>
  C4, where it fails. On a device without neighbours, with the one-element
  stencil \<open>[1]\<close> (\<open>lhalo = rhalo = 0\<close>), a partition of \<open>2^31 + 1\<close> elements of which
  the first is 0 and the others are 1, \<open>alpha = 0\<close>, \<open>beta = 1\<close> and work groups of
  one work item: at the index \<open>2^31\<close> the generic kernel stores \<open>x[2^31] = 1\<close>, the
  tiled kernel, whose \<open>int j\<close> has become \<open>-2^31\<close>, stores the clamped \<open>x[0] = 0\<close>.
  The two launches leave different buffers.
\<close>

theorem tiled_kernel_truncates:
  "slow_conv_item 2147483649 False False 0 0 [1] (0 # replicate 2147483648 1) [0]
       (replicate 2147483649 0) 0 1 2147483648 = Some (1 :: int)
   \<and> fast_conv_item 1 2147483649 False False 0 0 [1] (0 # replicate 2147483648 1) [0]
       (replicate 2147483649 0) 0 1 2147483648 = Some (0 :: int)
   \<and> fast_conv 1 2147483649 False False 0 0 [1] (0 # replicate 2147483648 1) [0]
       (replicate 2147483649 0) 0 (1 :: int)
     \<noteq> slow_conv 2147483649 False False 0 0 [1] (0 # replicate 2147483648 1) [0]
       (replicate 2147483649 0) 0 1"
proof -
  define n where "n = (2147483649 :: nat)"
  define i where "i = (2147483648 :: nat)"
  define x where "x = 0 # replicate 2147483648 (1 :: int)"
  define y where "y = replicate 2147483649 (0 :: int)"
  define g where "g = (\<lambda>idx. let total = stencil_sum [1]
                            (\<lambda>j. read_policy (int idx + j) n False False 0 0 x [0]) 0 0
           in if (0 :: int) = 0 then 1 * total else 0 * y ! idx + 1 * total)"
  define g' where "g' = (\<lambda>idx. let total = stencil_sum [1]
                            (\<lambda>j. read_policy (trunc_int (int idx + j)) n False False 0 0 x [0]) 0 0
           in if (0 :: int) = 0 then 1 * total else 0 * y ! idx + 1 * total)"
  have s: "slow_conv_item n False False 0 0 [1] x [0] y 0 1 i = Some 1"
    unfolding n_def x_def y_def i_def
    by (simp add: slow_conv_item_def conv_loop_def conv_step_def store_y_def read_x_def buf_read_def
        trunc_int_small)
  have f: "fast_conv_item 1 n False False 0 0 [1] x [0] y 0 1 i = Some 0"
    unfolding n_def x_def y_def i_def
    by (simp add: fast_conv_item_def conv_loop_def conv_step_def store_y_def
        load_S_def load_X_def read_x_def buf_read_def trunc_int_2p31 trunc_int_small)
  have wf: "kernel_wf n 0 0 [1] x [0] y" by (simp add: kernel_wf_def n_def x_def y_def)
  have i: "i < n" by (simp add: i_def n_def)
  have gs: "g i = 1"
    using slow_conv_item_eq [OF wf i, of False False 0 1] s by (simp add: g_def)
  have gf: "g' i = 0"
    using fast_conv_item_eq [OF wf i, of 1 False False 0 1] f by (simp add: g'_def)
  have "fast_conv 1 n False False 0 0 [1] x [0] y 0 1 \<noteq> slow_conv n False False 0 0 [1] x [0] y 0 1"
  proof
    assume e: "fast_conv 1 n False False 0 0 [1] x [0] y 0 1
       = slow_conv n False False 0 0 [1] x [0] y 0 1"
    have "map g' [0..<n] @ drop n y = map g [0..<n] @ drop n y"
      using e slow_conv_eq [OF wf, of False False 0 1] fast_conv_eq [OF wf, of 1 False False 0 1]
      by (simp add: g_def g'_def)
    then have "map g' [0..<n] = map g [0..<n]" by simp
    then have "g' i = g i" using i by (simp add: map_eq_conv)
    then show False using gs gf by simp
  qed
  with s f show ?thesis unfolding n_def x_def y_def i_def by simp
qed


subsection \<open>Halo exchange, device by device\<close>

lemma buf_write_local:
  assumes "0 \<le> off" and "off + int (length vals) \<le> int (length S)"
  shows "buf_write (A @ S @ B) (int (length A) + off) vals =
         Some (A @ (take (nat off) S @ vals @ drop (nat off + length vals) S) @ B)"
proof -
  have n: "nat (int (length A) + off) = length A + nat off" using assms(1) by (simp add: nat_add_distrib)
  have "nat off + length vals \<le> length S" using assms by linarith
  then show ?thesis using assms n by (simp add: buf_write_def)
qed

lemma buf_fill_local:
  assumes "0 \<le> lo" and "lo \<le> hi" and "hi \<le> int (length S)"
  shows "buf_fill (A @ S @ B) (int (length A) + lo) (int (length A) + hi) v =
         Some (A @ (take (nat lo) S @ replicate (nat (hi - lo)) v @ drop (nat hi) S) @ B)"
proof -
  have n: "nat (int (length A) + lo) = length A + nat lo" "nat (int (length A) + hi) = length A + nat hi"
    using assms by (simp_all add: nat_add_distrib)
  have "nat lo \<le> length S" "nat hi \<le> length S" using assms by linarith+
  then show ?thesis using assms n by (simp add: buf_fill_def)
qed

lemma buf_read_local:
  assumes "0 \<le> off" and "off < int (length S)"
  shows "buf_read (A @ S @ B) (int (length A) + off) = Some (S ! nat off)"
proof -
  have n: "nat (int (length A) + off) = length A + nat off" using assms(1) by (simp add: nat_add_distrib)
  have "nat off < length S" using assms by linarith
  then show ?thesis using assms n by (simp add: buf_read_def nth_append)
qed

lemma part_begin_le: "part_begin x d \<le> length (concat x)"
proof -
  have "concat x = concat (take d x) @ concat (drop d x)"
    by (metis append_take_drop_id concat_append)
  then have "length (concat x) = part_begin x d + length (concat (drop d x))"
    unfolding part_begin_def by (metis length_append)
  then show ?thesis by simp
qed

lemma szl_le_L: "szl x d L \<le> L"
  by (simp add: szl_def)

lemma szl_le_begin: "szl x d L \<le> part_begin x d"
  by (simp add: szl_def)

lemma szr_le_R: "szr x d R \<le> R"
  by (simp add: szr_def)

lemma szr_le_end: "part_begin x (Suc d) + szr x d R \<le> length (concat x)"
  using part_begin_le [of x "Suc d"] by (simp add: szr_def)

lemma length_got_left: "length (got_left x d L) = szl x d L"
  using part_begin_le [of x d] szl_le_begin [of x d L] by (simp add: got_left_def)

lemma length_got_right: "length (got_right x d R) = szr x d R"
  using szr_le_end [of x d R] by (simp add: got_right_def)

lemma part_start_eq: "d \<le> length x \<Longrightarrow> part_start x d = Some (part_begin x d)"
  by (simp add: part_start_def part_begin_def)

lemma left_range_eq:
  assumes "d \<le> length x"
  shows "left_range x d (int L) = Some (int (part_begin x d) - int (szl x d L), int (szl x d L))"
proof (cases "L \<le> part_begin x d")
  case True
  then have "szl x d L = L" by (simp add: szl_def)
  then show ?thesis using assms True by (simp add: left_range_def part_start_eq)
next
  case False
  then have "szl x d L = part_begin x d" by (simp add: szl_def)
  then show ?thesis using assms False by (simp add: left_range_def part_start_eq)
qed

lemma right_range_eq:
  assumes "Suc d \<le> length x"
  shows "right_range x d (int R) = Some (int (part_begin x (Suc d)), int (szr x d R))"
proof (cases "R \<le> length (concat x) - part_begin x (Suc d)")
  case True
  then have "szr x d R = R" by (simp add: szr_def)
  then show ?thesis using assms True part_begin_le [of x "Suc d"]
    by (simp add: right_range_def part_start_eq vec_size_def)
next
  case False
  then have "szr x d R = length (concat x) - part_begin x (Suc d)" by (simp add: szr_def)
  then show ?thesis using assms False part_begin_le [of x "Suc d"]
    by (simp add: right_range_def part_start_eq vec_size_def)
qed

lemma read_data_left:
  "read_data x (int (part_begin x d) - int (szl x d L)) (int (szl x d L)) = Some (got_left x d L)"
proof -
  have "nat (int (part_begin x d) - int (szl x d L)) = part_begin x d - szl x d L"
    by simp
  then show ?thesis
    using part_begin_le [of x d] szl_le_begin [of x d L]
    by (simp add: read_data_def vec_size_def got_left_def)
qed

lemma read_data_right:
  "read_data x (int (part_begin x (Suc d))) (int (szr x d R)) = Some (got_right x d R)"
  using szr_le_end [of x d R] by (simp add: read_data_def vec_size_def got_right_def)

lemma length_read_seg:
  assumes "length S = L + R"
  shows "length (read_seg x nq L R d S) = L + R"
  using assms szl_le_L [of x d L] szr_le_R [of x d R]
  by (auto simp: read_seg_def Let_def length_got_left length_got_right)

text \<open>The offsets into \<open>hbuf\<close> are exact when the slots up to that of device \<open>d\<close> are
  fewer than \<open>2^32\<close>.\<close>

lemma hbuf_offsets:
  assumes "Suc d * (L + R) < 2 ^ 32"
  shows "trunc_uint (int d * (int L + int R)) = int d * (int L + int R)"
    and "trunc_uint (int d * (int L + int R) + int L) = int d * (int L + int R) + int L"
    and "trunc_uint ((int d + 1) * (int L + int R)) = (int d + 1) * (int L + int R)"
proof -
  have "int (Suc d * (L + R)) < 2 ^ 32" using assms by (metis of_nat_less_numeral_power_cancel_iff)
  then have b: "(int d + 1) * (int L + int R) < 2 ^ 32" by (simp add: algebra_simps)
  have 0: "0 \<le> int d * (int L + int R)" by simp
  have 1: "int d * (int L + int R) + int L \<le> (int d + 1) * (int L + int R)"
    by (simp add: algebra_simps)
  have 2: "int d * (int L + int R) \<le> (int d + 1) * (int L + int R)"
    by (simp add: algebra_simps)
  show "trunc_uint (int d * (int L + int R)) = int d * (int L + int R)"
    using 0 2 b by (intro trunc_uint_id) linarith+
  show "trunc_uint (int d * (int L + int R) + int L) = int d * (int L + int R) + int L"
    using 0 1 b by (intro trunc_uint_id) linarith+
  show "trunc_uint ((int d + 1) * (int L + int R)) = (int d + 1) * (int L + int R)"
    using b by (intro trunc_uint_id) simp_all
qed

lemma read_step:
  assumes A: "length A = d * (L + R)" and S: "length S = L + R" and d: "d < length x"
    and nq: "length x = nq" and fit: "Suc d * (L + R) < 2 ^ 32"
  shows "read_halos_dev nq (int L) (int R) (int L + int R) x d (A @ S @ B)
     = Some (A @ read_seg x nq L R d S @ B)"
proof (cases "x ! d = []")
  case True
  then show ?thesis using d by (simp add: read_halos_dev_def part_size_def read_seg_def)
next
  case False
  note o = hbuf_offsets [OF fit]
  let ?S1 = "if 0 < d \<and> 0 < L then take (L - szl x d L) S @ got_left x d L @ drop L S else S"
  have pos: "int d * (int L + int R) = int (length A)" using A by (simp add: algebra_simps)
  have left: "(if 0 < d \<and> 0 < int L then do {
                 (b, sz) \<leftarrow> left_range x d (int L);
                 vals \<leftarrow> read_data x b sz;
                 buf_write (A @ S @ B) (int d * (int L + int R) + int L - sz) vals }
               else Some (A @ S @ B)) = Some (A @ ?S1 @ B)"
  proof (cases "0 < d \<and> 0 < L")
    case True
    have "buf_write (A @ S @ B) (int (length A) + (int L - int (szl x d L))) (got_left x d L)
        = Some (A @ (take (nat (int L - int (szl x d L))) S @ got_left x d L
                     @ drop (nat (int L - int (szl x d L)) + length (got_left x d L)) S) @ B)"
      using szl_le_L [of x d L] S
      by (intro buf_write_local) (simp_all add: length_got_left)
    moreover have "nat (int L - int (szl x d L)) = L - szl x d L"
      by simp
    moreover have "L - szl x d L + length (got_left x d L) = L"
      using szl_le_L [of x d L] by (simp add: length_got_left)
    moreover have "int d * (int L + int R) + int L - int (szl x d L)
        = int (length A) + (int L - int (szl x d L))"
      using pos by simp
    ultimately have "buf_write (A @ S @ B) (int d * (int L + int R) + int L - int (szl x d L))
          (got_left x d L)
        = Some (A @ (take (L - szl x d L) S @ got_left x d L @ drop L S) @ B)"
      by (simp add: add_diff_eq)
    then show ?thesis using True d
      by (simp add: left_range_eq read_data_left)
  next
    case False
    then show ?thesis by auto
  qed
  have S1: "length ?S1 = L + R"
    using S szl_le_L [of x d L] by (simp add: length_got_left)
  have right: "(if d + 1 < nq \<and> 0 < int R then do {
          (b, sz) \<leftarrow> right_range x d (int R);
          vals \<leftarrow> read_data x b sz;
          buf_write (A @ ?S1 @ B) (int d * (int L + int R) + int L) vals }
        else Some (A @ ?S1 @ B)) = Some (A @ read_seg x nq L R d S @ B)"
  proof (cases "d + 1 < nq \<and> 0 < R")
    case True
    have "buf_write (A @ ?S1 @ B) (int (length A) + int L) (got_right x d R)
        = Some (A @ (take (nat (int L)) ?S1 @ got_right x d R
                     @ drop (nat (int L) + length (got_right x d R)) ?S1) @ B)"
      using szr_le_R [of x d R] S1
      by (intro buf_write_local) (simp_all add: length_got_right)
    then have "buf_write (A @ ?S1 @ B) (int d * (int L + int R) + int L) (got_right x d R)
        = Some (A @ (take L ?S1 @ got_right x d R @ drop (L + szr x d R) ?S1) @ B)"
      using pos by (simp add: length_got_right)
    then show ?thesis using True d nq \<open>x ! d \<noteq> []\<close>
      by (simp add: read_seg_def right_range_eq read_data_right Let_def)
  next
    case False
    then show ?thesis using \<open>x ! d \<noteq> []\<close> by (auto simp: read_seg_def Let_def)
  qed
  show ?thesis
    unfolding read_halos_dev_def o
    using False d left right
    by (simp add: part_size_def)
qed

lemma concat_nonempty: "d < length x \<Longrightarrow> x ! d \<noteq> [] \<Longrightarrow> concat x \<noteq> []"
  by (metis concat_eq_Nil_conv nth_mem)

lemma length_write_seg:
  assumes "length S = L + R"
  shows "length (write_seg x nq L R d S) = L + R"
  using assms szl_le_L [of x d L] szr_le_R [of x d R]
  by (auto simp: write_seg_def Let_def)

lemma write_step:
  assumes A: "length A = d * (L + R)" and S: "length S = L + R" and d: "d < length x"
    and nq: "length x = nq" and db: "d < length db" "L + R \<le> length (db ! d)"
    and fit: "Suc d * (L + R) < 2 ^ 32"
  shows "write_halos_dev nq (int L) (int R) (int L + int R) x d (A @ S @ B, db) =
     Some (A @ write_seg x nq L R d S @ B, db[d := upload x nq L R d (write_seg x nq L R d S) (db ! d)])"
proof (cases "x ! d = []")
  case True
  then show ?thesis using d by (simp add: write_halos_dev_def part_size_def write_seg_def upload_def)
next
  case False
  let ?vl = "if szl x d L \<noteq> 0 then S ! (L - szl x d L) else concat x ! 0"
  let ?S1 = "if 0 < d \<and> 0 < L then replicate (L - szl x d L) ?vl @ drop (L - szl x d L) S else S"
  let ?vr = "if szr x d R \<noteq> 0 then ?S1 ! (L + szr x d R - 1) else concat x ! (length (concat x) - 1)"
  let ?S2 = "write_seg x nq L R d S"
  have ne: "concat x \<noteq> []" using d False by (rule concat_nonempty)
  have pos: "int d * (int L + int R) = int (length A)" using A by (simp add: algebra_simps)
  have left: "(if 0 < d \<and> 0 < int L then do {
                 (b, sz) \<leftarrow> left_range x d (int L);
                 v \<leftarrow> (if sz \<noteq> 0 then buf_read (A @ S @ B) (int d * (int L + int R) + int L - sz)
                       else vec_at x 0);
                 buf_fill (A @ S @ B) (int d * (int L + int R)) (int d * (int L + int R) + int L - sz) v }
               else Some (A @ S @ B)) = Some (A @ ?S1 @ B)"
  proof (cases "0 < d \<and> 0 < L")
    case True
    have "\<And>v. buf_fill (A @ S @ B) (int (length A) + 0) (int (length A) + (int L - int (szl x d L))) v
        = Some (A @ (take (nat 0) S @ replicate (nat (int L - int (szl x d L) - 0)) v
                     @ drop (nat (int L - int (szl x d L))) S) @ B)"
      using S szl_le_L [of x d L] by (intro buf_fill_local) auto
    moreover have n: "nat (int L - int (szl x d L)) = L - szl x d L" by simp
    ultimately have f: "\<And>v. buf_fill (A @ S @ B) (int (length A)) (int (length A) + int L - int (szl x d L)) v
        = Some (A @ replicate (L - szl x d L) v @ drop (L - szl x d L) S @ B)"
      by (simp add: add_diff_eq)
    show ?thesis
    proof (cases "szl x d L = 0")
      case z: True
      have "vec_at x 0 = Some (concat x ! 0)" using ne by (simp add: vec_at_def buf_read_def)
      then show ?thesis using True d z f
        by (simp add: left_range_eq pos)
    next
      case nz: False
      have "buf_read (A @ S @ B) (int (length A) + (int L - int (szl x d L)))
          = Some (S ! nat (int L - int (szl x d L)))"
        using nz S szl_le_L [of x d L] by (intro buf_read_local) auto
      then have "buf_read (A @ S @ B) (int (length A) + int L - int (szl x d L))
          = Some (S ! (L - szl x d L))"
        using n by (simp add: add_diff_eq)
      then show ?thesis using True d nz f
        by (simp add: left_range_eq pos)
    qed
  next
    case False
    then show ?thesis by auto
  qed
  have S1: "length ?S1 = L + R"
    using S szl_le_L [of x d L] by simp
  have pos2: "(int d + 1) * (int L + int R) = int (length A) + int L + int R"
    using A by (simp add: algebra_simps)
  have S2: "?S2 = (if d + 1 < nq \<and> 0 < R
              then take (L + szr x d R) ?S1 @ replicate (R - szr x d R) ?vr else ?S1)"
    using False by (simp add: write_seg_def Let_def)
  have right: "(if d + 1 < nq \<and> 0 < int R then do {
                 (b, sz) \<leftarrow> right_range x d (int R);
                 v \<leftarrow> (if sz \<noteq> 0 then buf_read (A @ ?S1 @ B) (int d * (int L + int R) + int L + sz - 1)
                       else vec_at x (int (vec_size x) - 1));
                 buf_fill (A @ ?S1 @ B) (int d * (int L + int R) + int L + sz)
                    ((int d + 1) * (int L + int R)) v }
               else Some (A @ ?S1 @ B)) = Some (A @ ?S2 @ B)"
  proof (cases "d + 1 < nq \<and> 0 < R")
    case True
    have "\<And>v. buf_fill (A @ ?S1 @ B) (int (length A) + (int L + int (szr x d R)))
            (int (length A) + (int L + int R)) v
        = Some (A @ (take (nat (int L + int (szr x d R))) ?S1
                     @ replicate (nat (int L + int R - (int L + int (szr x d R)))) v
                     @ drop (nat (int L + int R)) ?S1) @ B)"
      using S1 szr_le_R [of x d R] by (intro buf_fill_local) auto
    moreover have "nat (int L + int (szr x d R)) = L + szr x d R" by (simp add: nat_add_distrib)
    moreover have "nat (int L + int R - (int L + int (szr x d R))) = R - szr x d R" by simp
    moreover have "drop (nat (int L + int R)) ?S1 = []" using S1 by (simp add: nat_add_distrib)
    ultimately have f: "\<And>v. buf_fill (A @ ?S1 @ B) (int (length A) + int L + int (szr x d R))
            (int (length A) + int L + int R) v
        = Some (A @ (take (L + szr x d R) ?S1 @ replicate (R - szr x d R) v) @ B)"
      by (simp add: add.assoc)
    show ?thesis
    proof (cases "szr x d R = 0")
      case z: True
      have "0 < length (concat x)" using ne by simp
      moreover from this have "nat (int (length (concat x)) - 1) = length (concat x) - 1"
        by linarith
      ultimately have "vec_at x (int (vec_size x) - 1) = Some (concat x ! (length (concat x) - 1))"
        unfolding vec_at_def buf_read_def vec_size_def by simp
      then show ?thesis using True d nq z f [of "concat x ! (length (concat x) - 1)"]
        by (simp add: right_range_eq pos pos2 S2)
    next
      case nz: False
      have "buf_read (A @ ?S1 @ B) (int (length A) + (int L + int (szr x d R) - 1))
          = Some (?S1 ! nat (int L + int (szr x d R) - 1))"
        using nz S1 szr_le_R [of x d R] by (intro buf_read_local) auto
      moreover have "nat (int L + int (szr x d R) - 1) = L + szr x d R - 1"
        using nz by (simp add: nat_diff_distrib nat_add_distrib)
      ultimately have "buf_read (A @ ?S1 @ B) (int (length A) + int L + int (szr x d R) - 1)
          = Some (?S1 ! (L + szr x d R - 1))"
        by (simp add: add_diff_eq add.assoc)
      then show ?thesis using True d nq nz f [of "?S1 ! (L + szr x d R - 1)"]
        by (simp add: right_range_eq pos pos2 S2)
    qed
  next
    case False
    then show ?thesis using S2 by auto
  qed
  have S2l: "length ?S2 = L + R" using S by (rule length_write_seg)
  have sl: "take (nat (int L + int R)) (drop (nat (int d * (int L + int R))) (A @ ?S2 @ B)) = ?S2"
  proof -
    have "nat (int d * (int L + int R)) = length A" using pos by simp
    moreover have "nat (int L + int R) = length ?S2" using S2l by (simp add: nat_add_distrib)
    ultimately show ?thesis by simp
  qed
  have ok: "int d * (int L + int R) + (int L + int R) \<le> int (length (A @ ?S2 @ B))"
    using S2l pos by simp
  have wr: "buf_write (db ! d) 0 ?S2 = Some (?S2 @ drop (L + R) (db ! d))"
    using S2l db(2) by (simp add: buf_write_def)
  have rd: "buf_read db (int d) = Some (db ! d)" using db(1) by (simp add: buf_read_def)
  have up: "(if (0 < d \<and> 0 < int L) \<or> (d + 1 < nq \<and> 0 < int R) then do {
                 old \<leftarrow> buf_read db (int d);
                 vals \<leftarrow> (if 0 \<le> int L + int R
                              \<and> int d * (int L + int R) + (int L + int R) \<le> int (length (A @ ?S2 @ B))
                          then Some (take (nat (int L + int R))
                                  (drop (nat (int d * (int L + int R))) (A @ ?S2 @ B))) else None);
                 new \<leftarrow> buf_write old 0 vals;
                 Some (db[d := new]) }
               else Some db) = Some (db[d := upload x nq L R d ?S2 (db ! d)])"
  proof (cases "(0 < d \<and> 0 < L) \<or> (d + 1 < nq \<and> 0 < R)")
    case True
    then have "upload x nq L R d ?S2 (db ! d) = ?S2 @ drop (L + R) (db ! d)"
      using False by (simp add: upload_def)
    then show ?thesis using True sl ok wr rd by (simp del: length_append)
  next
    case False
    then have u: "upload x nq L R d ?S2 (db ! d) = db ! d" by (auto simp: upload_def)
    have c: "\<not> ((0 < d \<and> 0 < int L) \<or> (d + 1 < nq \<and> 0 < int R))" using False by simp
    show ?thesis unfolding u by (simp only: c if_False list_update_id)
  qed
  have ps: "part_size x d = Some (length (x ! d))" using d by (simp add: part_size_def)
  show ?thesis
    unfolding write_halos_dev_def Let_def fst_conv snd_conv ps hbuf_offsets [OF fit]
    using False left right up by (simp del: length_append)
qed

lemma for_loop_append:
  "for_loop body (xs @ ys) st = Option.bind (for_loop body xs st) (for_loop body ys)"
  by (induction xs arbitrary: st) (auto split: Option.bind_split)

lemma length_concat_uniform:
  "(\<And>d. d < k \<Longrightarrow> length (f d) = w) \<Longrightarrow> length (concat (map f [0..<k])) = k * w"
  by (induction k) auto

lemma seg_concat_uniform:
  assumes "\<And>d. d < k \<Longrightarrow> length (f d) = w" and "d < k"
  shows "seg w d (concat (map f [0..<k]) @ B) = f d"
proof -
  have "[0..<k] = [0..<d] @ d # [Suc d..<k]"
    using assms(2) by (metis less_imp_add_positive upt_add_eq_append upt_conv_Cons zero_le le_add1 add_0)
  then have "concat (map f [0..<k]) = concat (map f [0..<d]) @ f d @ concat (map f [Suc d..<k])"
    by simp
  moreover have "length (concat (map f [0..<d])) = d * w"
    using assms by (intro length_concat_uniform) auto
  moreover have "length (f d) = w" using assms by simp
  ultimately show ?thesis by (simp add: seg_def)
qed

lemma seg_split:
  assumes "Suc k * w \<le> length hb"
  shows "drop (k * w) hb = seg w k hb @ drop (Suc k * w) hb"
proof -
  have "drop (Suc k * w) hb = drop w (drop (k * w) hb)" by (simp add: add.commute)
  then show ?thesis unfolding seg_def by (simp only: append_take_drop_id)
qed

lemma length_seg: "Suc k * w \<le> length hb \<Longrightarrow> length (seg w k hb) = w"
  by (simp add: seg_def)

lemma length_seg_nq:
  assumes "length hb = nq * w" and "d < nq"
  shows "length (seg w d hb) = w"
proof -
  have "Suc d * w \<le> nq * w" using assms(2) by (intro mult_le_mono1) simp
  then have "w \<le> nq * w - d * w" by simp
  then show ?thesis by (simp add: seg_def assms(1))
qed

lemma read_loop:
  assumes "length hb = nq * (L + R)" and "length x = nq" and "k \<le> nq"
    and fit: "nq * (L + R) < 2 ^ 32"
  shows "for_loop (read_halos_dev nq (int L) (int R) (int L + int R) x) [0..<k] hb =
     Some (concat (map (\<lambda>d. read_seg x nq L R d (seg (L + R) d hb)) [0..<k]) @ drop (k * (L + R)) hb)"
  using assms(3)
proof (induction k)
  case 0
  show ?case by simp
next
  case (Suc k)
  let ?P = "concat (map (\<lambda>d. read_seg x nq L R d (seg (L + R) d hb)) [0..<k])"
  have le: "Suc k * (L + R) \<le> length hb"
    unfolding assms(1) using Suc.prems by (rule mult_le_mono1)
  have ls: "\<And>d. d < nq \<Longrightarrow> length (seg (L + R) d hb) = L + R"
    using assms(1) by (rule length_seg_nq)
  have lP: "length ?P = k * (L + R)"
    using Suc.prems ls by (intro length_concat_uniform length_read_seg) simp
  have fk: "Suc k * (L + R) < 2 ^ 32" using le fit assms(1) by simp
  have "for_loop (read_halos_dev nq (int L) (int R) (int L + int R) x) [0..<k] hb
      = Some (?P @ drop (k * (L + R)) hb)"
    using Suc by simp
  moreover have "read_halos_dev nq (int L) (int R) (int L + int R) x k
        (?P @ seg (L + R) k hb @ drop (Suc k * (L + R)) hb)
      = Some (?P @ read_seg x nq L R k (seg (L + R) k hb) @ drop (Suc k * (L + R)) hb)"
    using lP ls [of k] Suc.prems assms(2) fk by (intro read_step) auto
  ultimately show ?case
    using seg_split [OF le] by (simp add: for_loop_append del: mult_Suc)
qed

lemma write_loop:
  assumes "length hb = nq * (L + R)" and "length x = nq" and "length db = nq"
    and "\<And>d. d < nq \<Longrightarrow> L + R \<le> length (db ! d)" and "k \<le> nq"
    and fit: "nq * (L + R) < 2 ^ 32"
  shows "for_loop (write_halos_dev nq (int L) (int R) (int L + int R) x) [0..<k] (hb, db) =
     Some (concat (map (\<lambda>d. write_seg x nq L R d (seg (L + R) d hb)) [0..<k]) @ drop (k * (L + R)) hb,
           map (\<lambda>d. upload x nq L R d (write_seg x nq L R d (seg (L + R) d hb)) (db ! d)) [0..<k]
             @ drop k db)"
  using assms(5)
proof (induction k)
  case 0
  show ?case by simp
next
  case (Suc k)
  let ?P = "concat (map (\<lambda>d. write_seg x nq L R d (seg (L + R) d hb)) [0..<k])"
  let ?D = "map (\<lambda>d. upload x nq L R d (write_seg x nq L R d (seg (L + R) d hb)) (db ! d)) [0..<k]"
  have le: "Suc k * (L + R) \<le> length hb"
    unfolding assms(1) using Suc.prems by (rule mult_le_mono1)
  have ls: "\<And>d. d < nq \<Longrightarrow> length (seg (L + R) d hb) = L + R"
    using assms(1) by (rule length_seg_nq)
  have lP: "length ?P = k * (L + R)"
    using Suc.prems ls by (intro length_concat_uniform length_write_seg) simp
  have k: "k < length db" using Suc.prems assms(3) by simp
  have dk: "drop k db = db ! k # drop (Suc k) db" using k by (simp add: Cons_nth_drop_Suc)
  have nth: "(?D @ drop k db) ! k = db ! k" using k by (simp add: nth_append)
  have upd: "(?D @ drop k db)[k := v] = ?D @ v # drop (Suc k) db" for v
    using dk by (simp add: list_update_append)
  have fk: "Suc k * (L + R) < 2 ^ 32" using le fit assms(1) by simp
  have "for_loop (write_halos_dev nq (int L) (int R) (int L + int R) x) [0..<k] (hb, db)
      = Some (?P @ drop (k * (L + R)) hb, ?D @ drop k db)"
    using Suc by simp
  moreover have "write_halos_dev nq (int L) (int R) (int L + int R) x k
        (?P @ seg (L + R) k hb @ drop (Suc k * (L + R)) hb, ?D @ drop k db)
      = Some (?P @ write_seg x nq L R k (seg (L + R) k hb) @ drop (Suc k * (L + R)) hb,
              (?D @ drop k db)[k := upload x nq L R k (write_seg x nq L R k (seg (L + R) k hb))
                 ((?D @ drop k db) ! k)])"
    using lP ls [of k] Suc.prems assms(2,3,4) k nth fk by (intro write_step) auto
  ultimately show ?case
    using seg_split [OF le] nth upd by (simp add: for_loop_append del: mult_Suc)
qed


subsection \<open>What the exchange leaves in the halo buffers\<close>

lemma concat_split_at:
  assumes "d < length x"
  shows "concat x = concat (take d x) @ x ! d @ concat (drop (Suc d) x)"
proof -
  have "x = take d x @ x ! d # drop (Suc d) x" using assms by (simp add: id_take_nth_drop)
  then have "concat x = concat (take d x @ x ! d # drop (Suc d) x)" by simp
  then show ?thesis by simp
qed

lemma first_of_part:
  assumes "d < length x" and "x ! d \<noteq> []" and "part_begin x d = 0"
  shows "concat x ! 0 = hd (x ! d)"
proof -
  have "concat (take d x) = []" using assms(3) by (simp add: part_begin_def)
  then have "concat x = x ! d @ concat (drop (Suc d) x)"
    using concat_split_at [OF assms(1)] by simp
  then show ?thesis using assms(2) by (simp add: nth_append hd_conv_nth)
qed

lemma part_begin_Suc: "d < length x \<Longrightarrow> part_begin x (Suc d) = part_begin x d + length (x ! d)"
  by (simp add: part_begin_def take_Suc_conv_app_nth)

lemma last_of_part:
  assumes "d < length x" and "x ! d \<noteq> []" and "part_begin x (Suc d) = length (concat x)"
  shows "concat x ! (length (concat x) - 1) = last (x ! d)"
proof -
  have c: "concat x = concat (take d x) @ x ! d @ concat (drop (Suc d) x)"
    using assms(1) by (rule concat_split_at)
  have "length (concat x) = part_begin x d + length (x ! d) + length (concat (drop (Suc d) x))"
    using arg_cong [OF c, of length] by (simp add: part_begin_def)
  then have e: "concat (drop (Suc d) x) = []"
    using assms(1,3) by (simp add: part_begin_Suc)
  have "concat x = concat (take d x) @ x ! d" using c e by simp
  then have "last (concat x) = last (x ! d)" using assms(2) by simp
  moreover have "concat x \<noteq> []" using c assms(2) by simp
  ultimately show ?thesis by (simp add: last_conv_nth)
qed

lemma write_seg_take_left:
  assumes "x ! d \<noteq> []" and "0 < d" and "0 < L" and S: "length S = L + R"
  shows "take L (write_seg x nq L R d S) =
     replicate (L - szl x d L) (if szl x d L \<noteq> 0 then S ! (L - szl x d L) else concat x ! 0)
     @ take (szl x d L) (drop (L - szl x d L) S)"
proof -
  define k where "k = szl x d L"
  define v where "v = (if k \<noteq> 0 then S ! (L - k) else concat x ! 0)"
  define T where "T = replicate (L - k) v @ drop (L - k) S"
  have k: "k \<le> L" unfolding k_def by (rule szl_le_L)
  have lT: "length T = L + R" using S k by (simp add: T_def)
  have tT: "take L T = replicate (L - k) v @ take k (drop (L - k) S)"
    using k by (simp add: T_def)
  show ?thesis
  proof (cases "d + 1 < nq \<and> 0 < R")
    case True
    define v' where "v' = (if szr x d R \<noteq> 0 then T ! (L + szr x d R - 1)
                 else concat x ! (length (concat x) - 1))"
    have "write_seg x nq L R d S = take (L + szr x d R) T @ replicate (R - szr x d R) v'"
      using assms True by (simp add: write_seg_def Let_def T_def v_def k_def v'_def)
    then have "take L (write_seg x nq L R d S) = take L T"
      using lT by simp
    then show ?thesis using tT by (simp add: v_def k_def)
  next
    case False
    then have "write_seg x nq L R d S = T"
      using assms by (auto simp: write_seg_def Let_def T_def v_def k_def)
    then show ?thesis using tT by (simp add: v_def k_def)
  qed
qed

lemma read_seg_take_left:
  assumes "x ! d \<noteq> []" and "0 < d" and "0 < L" and S: "length S = L + R"
  shows "take L (read_seg x nq L R d S) = take (L - szl x d L) S @ got_left x d L"
proof -
  define k where "k = szl x d L"
  define S1 where "S1 = take (L - k) S @ got_left x d L @ drop L S"
  have k: "k \<le> L" unfolding k_def by (rule szl_le_L)
  have lg: "length (got_left x d L) = k" unfolding k_def by (rule length_got_left)
  have t1: "take L S1 = take (L - k) S @ got_left x d L" using S k lg by (simp add: S1_def)
  show ?thesis
  proof (cases "d + 1 < nq \<and> 0 < R")
    case True
    then have "read_seg x nq L R d S = take L S1 @ got_right x d R @ drop (L + szr x d R) S1"
      using assms by (simp add: read_seg_def Let_def S1_def k_def)
    moreover have "length (take L S1) = L" using S k lg by (simp add: S1_def)
    ultimately have "take L (read_seg x nq L R d S) = take L S1" by simp
    then show ?thesis using t1 by (simp add: k_def)
  next
    case False
    then have "read_seg x nq L R d S = S1"
      using assms by (auto simp: read_seg_def Let_def S1_def k_def)
    then show ?thesis using t1 by (simp add: k_def)
  qed
qed

lemma halo_seg_left:
  assumes "d < length x" and "x ! d \<noteq> []" and "0 < d" and "0 < L" and S: "length S = L + R"
  shows "take L (halo_seg x nq L R d S) = left_halo x d L"
proof -
  define k where "k = szl x d L"
  define S2 where "S2 = read_seg x nq L R d S"
  have k: "k \<le> L" unfolding k_def by (rule szl_le_L)
  have lg: "length (got_left x d L) = k" unfolding k_def by (rule length_got_left)
  have l2: "length S2 = L + R" unfolding S2_def using S by (rule length_read_seg)
  have t: "take L S2 = take (L - k) S @ got_left x d L"
    unfolding S2_def k_def using assms(2,3,4) S by (rule read_seg_take_left)
  have lt: "length (take (L - k) S) = L - k" using S by simp
  have dr: "take k (drop (L - k) S2) = got_left x d L"
  proof -
    have "take k (drop (L - k) S2) = drop (L - k) (take L S2)" using k by (simp add: take_drop)
    also have "\<dots> = got_left x d L" unfolding t using lt by simp
    finally show ?thesis .
  qed
  have v: "(if k \<noteq> 0 then S2 ! (L - k) else concat x ! 0)
         = (if k \<noteq> 0 then hd (got_left x d L) else hd (x ! d))"
  proof (cases "k = 0")
    case True
    then have "part_begin x d = 0" using assms(4) by (simp add: k_def szl_def min_def split: if_splits)
    then show ?thesis using True first_of_part [OF assms(1,2)] by simp
  next
    case False
    have ne: "got_left x d L \<noteq> []" using False lg by auto
    have "S2 ! (L - k) = take L S2 ! (L - k)" using False k by simp
    also have "\<dots> = got_left x d L ! 0" unfolding t using lt by (simp add: nth_append)
    also have "\<dots> = hd (got_left x d L)" using ne by (simp add: hd_conv_nth)
    finally show ?thesis using False by simp
  qed
  have "take L (write_seg x nq L R d S2) =
     replicate (L - k) (if k \<noteq> 0 then S2 ! (L - k) else concat x ! 0) @ take k (drop (L - k) S2)"
    unfolding k_def using assms(2,3,4) l2 by (rule write_seg_take_left)
  then show ?thesis
    unfolding halo_seg_def left_halo_def S2_def [symmetric] k_def [symmetric] v dr .
qed

lemma read_seg_drop_right:
  assumes "x ! d \<noteq> []" and "d + 1 < nq" and "0 < R" and S: "length S = L + R"
  shows "take (szr x d R) (drop L (read_seg x nq L R d S)) = got_right x d R"
proof -
  define S1 where "S1 = (if 0 < d \<and> 0 < L
      then take (L - szl x d L) S @ got_left x d L @ drop L S else S)"
  have l1: "length S1 = L + R"
    using S szl_le_L [of x d L] length_got_left [of x d L] by (simp add: S1_def)
  have "read_seg x nq L R d S = take L S1 @ got_right x d R @ drop (L + szr x d R) S1"
    using assms by (simp add: read_seg_def Let_def S1_def)
  moreover have "length (take L S1) = L" using l1 by simp
  ultimately have "drop L (read_seg x nq L R d S) = got_right x d R @ drop (L + szr x d R) S1"
    by simp
  then show ?thesis using length_got_right [of x d R] by simp
qed

lemma write_seg_drop_right:
  assumes "x ! d \<noteq> []" and "d + 1 < nq" and "0 < R" and S: "length S = L + R"
  shows "drop L (write_seg x nq L R d S) =
     take (szr x d R) (drop L S)
     @ replicate (R - szr x d R)
         (if szr x d R \<noteq> 0 then S ! (L + szr x d R - 1) else concat x ! (length (concat x) - 1))"
proof -
  define k where "k = szl x d L"
  define m where "m = szr x d R"
  define T where "T = (if 0 < d \<and> 0 < L
      then replicate (L - k) (if k \<noteq> 0 then S ! (L - k) else concat x ! 0) @ drop (L - k) S else S)"
  have k: "k \<le> L" unfolding k_def by (rule szl_le_L)
  have m: "m \<le> R" unfolding m_def by (rule szr_le_R)
  have lT: "length T = L + R" using S k by (simp add: T_def)
  have dT: "drop L T = drop L S" using S k by (simp add: T_def)
  have nT: "T ! (L + m - 1) = S ! (L + m - 1)" if "m \<noteq> 0"
  proof -
    have "T ! (L + m - 1) = drop L T ! (m - 1)" using that lT m by simp
    also have "\<dots> = S ! (L + m - 1)" unfolding dT using that S m by simp
    finally show ?thesis .
  qed
  define v where "v = (if m \<noteq> 0 then T ! (L + m - 1) else concat x ! (length (concat x) - 1))"
  have v: "v = (if m \<noteq> 0 then S ! (L + m - 1) else concat x ! (length (concat x) - 1))"
    using nT by (simp add: v_def)
  have "write_seg x nq L R d S = take (L + m) T @ replicate (R - m) v"
    using assms by (simp add: write_seg_def Let_def T_def k_def m_def v_def)
  then have "drop L (write_seg x nq L R d S) = drop L (take (L + m) T) @ replicate (R - m) v"
    using lT by simp
  also have "drop L (take (L + m) T) = take m (drop L T)" by (simp add: take_drop add.commute)
  finally show ?thesis unfolding dT v m_def .
qed

lemma halo_seg_right:
  assumes "d < length x" and "x ! d \<noteq> []" and "d + 1 < nq" and "0 < R" and S: "length S = L + R"
  shows "drop L (halo_seg x nq L R d S) = right_halo x d R"
proof -
  define m where "m = szr x d R"
  define S2 where "S2 = read_seg x nq L R d S"
  have m: "m \<le> R" unfolding m_def by (rule szr_le_R)
  have lg: "length (got_right x d R) = m" unfolding m_def by (rule length_got_right)
  have l2: "length S2 = L + R" unfolding S2_def using S by (rule length_read_seg)
  have t: "take m (drop L S2) = got_right x d R"
    unfolding S2_def m_def using assms(2,3,4) S by (rule read_seg_drop_right)
  have v: "(if m \<noteq> 0 then S2 ! (L + m - 1) else concat x ! (length (concat x) - 1))
         = (if m \<noteq> 0 then last (got_right x d R) else last (x ! d))"
  proof (cases "m = 0")
    case True
    then have "length (concat x) - part_begin x (Suc d) = 0"
      using assms(4) by (simp add: m_def szr_def min_def split: if_splits)
    then have "part_begin x (Suc d) = length (concat x)"
      using part_begin_le [of x "Suc d"] by simp
    then show ?thesis using True last_of_part [OF assms(1,2)] by simp
  next
    case False
    have ne: "got_right x d R \<noteq> []" using False lg by auto
    have "S2 ! (L + m - 1) = drop L S2 ! (m - 1)" using False l2 m by simp
    also have "\<dots> = take m (drop L S2) ! (m - 1)" using False by simp
    also have "\<dots> = last (got_right x d R)" unfolding t using ne lg by (simp add: last_conv_nth)
    finally show ?thesis using False by simp
  qed
  have "drop L (write_seg x nq L R d S2) =
     take m (drop L S2)
     @ replicate (R - m) (if m \<noteq> 0 then S2 ! (L + m - 1) else concat x ! (length (concat x) - 1))"
    unfolding m_def using assms(2,3,4) l2 by (rule write_seg_drop_right)
  then show ?thesis
    unfolding halo_seg_def right_halo_def S2_def [symmetric] m_def [symmetric] v t .
qed

lemma length_halo_seg: "length S = L + R \<Longrightarrow> length (halo_seg x nq L R d S) = L + R"
  by (simp add: halo_seg_def length_write_seg length_read_seg)

lemma length_left_halo: "length (left_halo x d L) = L"
  using szl_le_L [of x d L] by (simp add: left_halo_def length_got_left)

lemma length_right_halo: "length (right_halo x d R) = R"
  using szr_le_R [of x d R] by (simp add: right_halo_def length_got_right)

lemma exchange_loops:
  assumes hb: "length hb = nq * (L + R)" and x: "length x = nq" and db: "length db = nq"
    and dbl: "\<And>d. d < nq \<Longrightarrow> L + R \<le> length (db ! d)"
    and fit: "nq * (L + R) < 2 ^ 32"
  shows "Option.bind (for_loop (read_halos_dev nq (int L) (int R) (int L + int R) x) [0..<nq] hb)
           (\<lambda>hb1. for_loop (write_halos_dev nq (int L) (int R) (int L + int R) x) [0..<nq] (hb1, db))
     = Some (concat (map (\<lambda>d. halo_seg x nq L R d (seg (L + R) d hb)) [0..<nq]),
             map (\<lambda>d. upload x nq L R d (halo_seg x nq L R d (seg (L + R) d hb)) (db ! d)) [0..<nq])"
proof -
  define hb1 where "hb1 = concat (map (\<lambda>d. read_seg x nq L R d (seg (L + R) d hb)) [0..<nq])"
  have ls: "\<And>d. d < nq \<Longrightarrow> length (read_seg x nq L R d (seg (L + R) d hb)) = L + R"
    using hb by (intro length_read_seg length_seg_nq)
  have r: "for_loop (read_halos_dev nq (int L) (int R) (int L + int R) x) [0..<nq] hb = Some hb1"
    using read_loop [OF hb x le_refl fit] hb by (simp add: hb1_def)
  have l1: "length hb1 = nq * (L + R)"
    unfolding hb1_def using ls by (rule length_concat_uniform)
  have s1: "seg (L + R) d hb1 = read_seg x nq L R d (seg (L + R) d hb)" if "d < nq" for d
    using seg_concat_uniform [of nq "\<lambda>d. read_seg x nq L R d (seg (L + R) d hb)" "L + R" d "[]"]
      ls that by (simp add: hb1_def)
  have w: "for_loop (write_halos_dev nq (int L) (int R) (int L + int R) x) [0..<nq] (hb1, db)
      = Some (concat (map (\<lambda>d. write_seg x nq L R d (seg (L + R) d hb1)) [0..<nq]),
           map (\<lambda>d. upload x nq L R d (write_seg x nq L R d (seg (L + R) d hb1)) (db ! d)) [0..<nq])"
    using write_loop [OF l1 x db dbl le_refl fit] l1 db by simp
  have m1: "map (\<lambda>d. write_seg x nq L R d (seg (L + R) d hb1)) [0..<nq]
          = map (\<lambda>d. halo_seg x nq L R d (seg (L + R) d hb)) [0..<nq]"
    using s1 by (simp add: halo_seg_def)
  have m2: "map (\<lambda>d. upload x nq L R d (write_seg x nq L R d (seg (L + R) d hb1)) (db ! d)) [0..<nq]
          = map (\<lambda>d. upload x nq L R d (halo_seg x nq L R d (seg (L + R) d hb)) (db ! d)) [0..<nq]"
    using s1 by (simp add: halo_seg_def)
  note w' = w [unfolded m1 m2]
  show ?thesis unfolding r by (simp add: w')
qed

lemma exchange_halos_eq:
  assumes wf: "base_wf st" and x: "length x = length (queue st)"
    and nq: "1 < length (queue st)" and w: "0 < lhalo st + rhalo st"
    and fit: "length (hbuf st) < 2 ^ 32"
  shows "exchange_halos st x =
     Some (st\<lparr> hbuf := concat (map (\<lambda>d. halo_seg x (length (queue st)) (nat (lhalo st)) (nat (rhalo st)) d
                                   (seg (nat (lhalo st) + nat (rhalo st)) d (hbuf st)))
                            [0..<length (queue st)]),
               dbuf := map (\<lambda>d. upload x (length (queue st)) (nat (lhalo st)) (nat (rhalo st)) d
                                   (halo_seg x (length (queue st)) (nat (lhalo st)) (nat (rhalo st)) d
                                      (seg (nat (lhalo st) + nat (rhalo st)) d (hbuf st)))
                                   (dbuf st ! d))
                            [0..<length (queue st)] \<rparr>)"
proof -
  define L where "L = nat (lhalo st)"
  define R where "R = nat (rhalo st)"
  have lh: "lhalo st = int L" and rh: "rhalo st = int R"
    using wf by (simp_all add: base_wf_def L_def R_def)
  have hb: "length (hbuf st) = length (queue st) * (L + R)"
    using wf by (simp add: base_wf_def lh rh nat_add_distrib)
  have db: "length (dbuf st) = length (queue st)" using wf by (simp add: base_wf_def)
  have dbl: "\<And>d. d < length (queue st) \<Longrightarrow> L + R \<le> length (dbuf st ! d)"
  proof -
    fix d assume "d < length (queue st)"
    then have "int L + int R \<le> int (length (dbuf st ! d))"
      using wf db by (simp add: base_wf_def lh rh list_all_length)
    then show "L + R \<le> length (dbuf st ! d)" by linarith
  qed
  have c: "\<not> (length (queue st) \<le> 1 \<or> int L + int R \<le> 0)" using nq w by (simp add: lh rh)
  have f: "length (queue st) * (L + R) < 2 ^ 32" using fit hb by simp
  have "2 * (L + R) \<le> length (queue st) * (L + R)" using nq by (intro mult_le_mono1) simp
  then have "2 * (L + R) < 2 ^ 32" using f by simp
  then have "int L + int R < 2 ^ 31" by simp
  then have t: "trunc_int (int L + int R) = int L + int R" by (intro trunc_int_id) auto
  obtain hb1 where r: "for_loop (read_halos_dev (length (queue st)) (int L) (int R) (int L + int R) x)
        [0..<length (queue st)] (hbuf st) = Some hb1"
    and w: "for_loop (write_halos_dev (length (queue st)) (int L) (int R) (int L + int R) x)
        [0..<length (queue st)] (hb1, dbuf st)
      = Some (concat (map (\<lambda>d. halo_seg x (length (queue st)) L R d (seg (L + R) d (hbuf st)))
                [0..<length (queue st)]),
              map (\<lambda>d. upload x (length (queue st)) L R d
                     (halo_seg x (length (queue st)) L R d (seg (L + R) d (hbuf st))) (dbuf st ! d))
                [0..<length (queue st)])"
    using exchange_loops [OF hb x db dbl f] by (auto simp: bind_eq_Some_conv)
  show ?thesis
    unfolding exchange_halos_def Let_def lh rh t if_not_P [OF c] L_def [symmetric] R_def [symmetric]
    by (simp add: r w)
qed


text \<open>
  C3. With more than one queue and a halo, and with fewer than \<open>2^32\<close> elements
  in \<open>hbuf\<close> (so that \<open>int width\<close> and the \<open>unsigned\<close> offsets into \<open>hbuf\<close> hold their
  values), \<open>exchange_halos\<close> succeeds, and for
  every partition \<open>d\<close> that is not empty: if it has a left neighbour and
  \<open>lhalo > 0\<close>, the first \<open>lhalo\<close> slots of its part of \<open>hbuf\<close> are the elements read
  before its start, preceded, where fewer than \<open>lhalo\<close> were read, by copies of
  the first element read, or, where none was read, by copies of the
  partition's own first element (\<open>left_halo\<close>); if it has a right neighbour and
  \<open>rhalo > 0\<close>, the slots from \<open>lhalo\<close> on are the elements read after its end,
  followed by copies of the last element read, or of the partition's own last
  element where none was read (\<open>right_halo\<close>); and where a side was filled, the
  device buffer \<open>dbuf[d]\<close> starts with that part of \<open>hbuf\<close>.
\<close>

theorem exchange_halos_fills:
  assumes wf: "base_wf st" and x: "length x = length (queue st)"
    and nq: "1 < length (queue st)" and w: "0 < lhalo st + rhalo st"
    and fit: "length (hbuf st) < 2 ^ 32"
  shows "\<exists>st'. exchange_halos st x = Some st'
     \<and> (\<forall>d < length (queue st). x ! d \<noteq> [] \<longrightarrow>
          (0 < d \<and> 0 < lhalo st \<longrightarrow>
             take (nat (lhalo st)) (seg (nat (lhalo st + rhalo st)) d (hbuf st'))
               = left_halo x d (nat (lhalo st)))
        \<and> (d + 1 < length (queue st) \<and> 0 < rhalo st \<longrightarrow>
             drop (nat (lhalo st)) (seg (nat (lhalo st + rhalo st)) d (hbuf st'))
               = right_halo x d (nat (rhalo st)))
        \<and> ((0 < d \<and> 0 < lhalo st) \<or> (d + 1 < length (queue st) \<and> 0 < rhalo st) \<longrightarrow>
             take (nat (lhalo st + rhalo st)) (dbuf st' ! d)
               = seg (nat (lhalo st + rhalo st)) d (hbuf st')))"
proof -
  define nq where "nq = length (queue st)"
  define L where "L = nat (lhalo st)"
  define R where "R = nat (rhalo st)"
  define H where "H = (\<lambda>d. halo_seg x nq L R d (seg (L + R) d (hbuf st)))"
  define st' where "st' = st\<lparr> hbuf := concat (map H [0..<nq]),
       dbuf := map (\<lambda>d. upload x nq L R d (H d) (dbuf st ! d)) [0..<nq] \<rparr>"
  have lh: "lhalo st = int L" and rh: "rhalo st = int R"
    using wf by (simp_all add: base_wf_def L_def R_def)
  have LR: "nat (lhalo st + rhalo st) = L + R" by (simp add: lh rh nat_add_distrib)
  have hb: "length (hbuf st) = nq * (L + R)"
    using wf by (simp add: base_wf_def LR nq_def)
  have lsz: "length (seg (L + R) d (hbuf st)) = L + R" if "d < nq" for d
    using hb that by (rule length_seg_nq)
  have lH: "length (H d) = L + R" if "d < nq" for d
    unfolding H_def using lsz [OF that] by (rule length_halo_seg)
  have e: "exchange_halos st x = Some st'"
    using exchange_halos_eq [OF wf x nq w fit] by (simp add: st'_def H_def nq_def L_def R_def)
  have sg: "seg (L + R) d (hbuf st') = H d" if "d < nq" for d
    using seg_concat_uniform [of nq H "L + R" d "[]"] lH that by (simp add: st'_def)
  have "(0 < d \<and> 0 < lhalo st \<longrightarrow> take L (seg (L + R) d (hbuf st')) = left_halo x d L)
      \<and> (d + 1 < nq \<and> 0 < rhalo st \<longrightarrow> drop L (seg (L + R) d (hbuf st')) = right_halo x d R)
      \<and> ((0 < d \<and> 0 < lhalo st) \<or> (d + 1 < nq \<and> 0 < rhalo st) \<longrightarrow>
           take (L + R) (dbuf st' ! d) = seg (L + R) d (hbuf st'))"
    if d: "d < nq" and ne: "x ! d \<noteq> []" for d
  proof (intro conjI impI)
    assume "0 < d \<and> 0 < lhalo st"
    then show "take L (seg (L + R) d (hbuf st')) = left_halo x d L"
      unfolding sg [OF d] H_def using d ne x lsz [OF d]
      by (intro halo_seg_left) (simp_all add: nq_def lh)
  next
    assume "d + 1 < nq \<and> 0 < rhalo st"
    then show "drop L (seg (L + R) d (hbuf st')) = right_halo x d R"
      unfolding sg [OF d] H_def using d ne x lsz [OF d]
      by (intro halo_seg_right) (simp_all add: nq_def rh)
  next
    assume "(0 < d \<and> 0 < lhalo st) \<or> (d + 1 < nq \<and> 0 < rhalo st)"
    then have "upload x nq L R d (H d) (dbuf st ! d) = H d @ drop (L + R) (dbuf st ! d)"
      using ne by (simp add: upload_def lh rh)
    then show "take (L + R) (dbuf st' ! d) = seg (L + R) d (hbuf st')"
      unfolding sg [OF d] using d lH [OF d] by (simp add: st'_def)
  qed
  then show ?thesis using e unfolding LR nq_def [symmetric] L_def [symmetric] R_def [symmetric]
    by blast
qed

theorem exchange_halos_fills_witness:
  "\<exists>st'. exchange_halos \<lparr> queue = [\<lparr> is_cpu = False, workgroup_size = 4 \<rparr>,
                                    \<lparr> is_cpu = False, workgroup_size = 4 \<rparr>],
                           hbuf = [0, 0, 0, 0, 0, 0 :: int],
                           dbuf = [[9, 9, 9, 9], [9, 9, 9, 9]],
                           s_buf = [[1, 1, 1, 1], [1, 1, 1, 1]], lhalo = 2, rhalo = 1 \<rparr>
            [[10], [20, 30]] = Some st'
     \<and> take 2 (seg 3 1 (hbuf st')) = [10, 10]
     \<and> drop 2 (seg 3 0 (hbuf st')) = [20]
     \<and> take 3 (dbuf st' ! 1) = seg 3 1 (hbuf st')"
proof -
  let ?st = "\<lparr> queue = [\<lparr> is_cpu = False, workgroup_size = 4 \<rparr>,
                         \<lparr> is_cpu = False, workgroup_size = 4 \<rparr>],
                hbuf = [0, 0, 0, 0, 0, 0 :: int],
                dbuf = [[9, 9, 9, 9], [9, 9, 9, 9]],
                s_buf = [[1, 1, 1, 1], [1, 1, 1, 1]], lhalo = 2, rhalo = 1 \<rparr>"
  let ?x = "[[10], [20, 30 :: int]]"
  have wf: "base_wf ?st" by (simp add: base_wf_def)
  have l: "left_halo ?x 1 2 = [10, 10]" by code_simp
  have r: "right_halo ?x 0 1 = [20]" by code_simp
  obtain st' where e: "exchange_halos ?st ?x = Some st'"
    and a: "\<forall>d < length (queue ?st). ?x ! d \<noteq> [] \<longrightarrow>
          (0 < d \<and> 0 < lhalo ?st \<longrightarrow>
             take (nat (lhalo ?st)) (seg (nat (lhalo ?st + rhalo ?st)) d (hbuf st'))
               = left_halo ?x d (nat (lhalo ?st)))
        \<and> (d + 1 < length (queue ?st) \<and> 0 < rhalo ?st \<longrightarrow>
             drop (nat (lhalo ?st)) (seg (nat (lhalo ?st + rhalo ?st)) d (hbuf st'))
               = right_halo ?x d (nat (rhalo ?st)))
        \<and> ((0 < d \<and> 0 < lhalo ?st) \<or> (d + 1 < length (queue ?st) \<and> 0 < rhalo ?st) \<longrightarrow>
             take (nat (lhalo ?st + rhalo ?st)) (dbuf st' ! d)
               = seg (nat (lhalo ?st + rhalo ?st)) d (hbuf st'))"
    using exchange_halos_fills [OF wf, of ?x] by auto
  from a [rule_format, of 1] a [rule_format, of 0] l r
  have "take 2 (seg 3 1 (hbuf st')) = [10, 10] \<and> drop 2 (seg 3 0 (hbuf st')) = [20]
      \<and> take 3 (dbuf st' ! 1) = seg 3 1 (hbuf st')"
    by simp
  with e show ?thesis by blast
qed


text \<open>
  C3, where it fails. Two queues and a stencil of \<open>2^31 + 1\<close> coefficients with
  center \<open>2^30\<close>: the constructor accepts them, \<open>lhalo = rhalo = 2^30\<close>, and \<open>hbuf\<close>
  has \<open>2^32\<close> elements. On \<open>x = [[1], [2]]\<close> the sum \<open>lhalo + rhalo\<close> does not fit
  \<open>int width\<close>, which is negative, and \<open>exchange_halos\<close> returns at once. Partition
  0 has a right neighbour that holds one element, 2, fewer than \<open>rhalo\<close>; its
  slots from \<open>lhalo\<close> on should be copies of 2 and are what they were.
\<close>

theorem exchange_halos_counterexample:
  "stencil_base_ctor (\<lambda>d i. 0)
       [\<lparr> is_cpu = False, workgroup_size = 64 \<rparr>, \<lparr> is_cpu = False, workgroup_size = 64 \<rparr>]
       2147483649 1073741824 (replicate 2147483649 1)
     = Inr
       \<lparr> queue = [\<lparr> is_cpu = False, workgroup_size = 64 \<rparr>,
                \<lparr> is_cpu = False, workgroup_size = 64 \<rparr>],
       hbuf = replicate 4294967296 (0 :: int),
       dbuf = [replicate 2147483649 0, replicate 2147483649 0],
       s_buf = [replicate 2147483649 1, replicate 2147483649 1],
       lhalo = 1073741824, rhalo = 1073741824 \<rparr>
   \<and> exchange_halos
       \<lparr> queue = [\<lparr> is_cpu = False, workgroup_size = 64 \<rparr>,
                \<lparr> is_cpu = False, workgroup_size = 64 \<rparr>],
       hbuf = replicate 4294967296 (0 :: int),
       dbuf = [replicate 2147483649 0, replicate 2147483649 0],
       s_buf = [replicate 2147483649 1, replicate 2147483649 1],
       lhalo = 1073741824, rhalo = 1073741824 \<rparr> [[1], [2]]
     = Some
       \<lparr> queue = [\<lparr> is_cpu = False, workgroup_size = 64 \<rparr>,
                \<lparr> is_cpu = False, workgroup_size = 64 \<rparr>],
       hbuf = replicate 4294967296 (0 :: int),
       dbuf = [replicate 2147483649 0, replicate 2147483649 0],
       s_buf = [replicate 2147483649 1, replicate 2147483649 1],
       lhalo = 1073741824, rhalo = 1073741824 \<rparr>
   \<and> drop 1073741824 (seg 2147483648 0 (replicate 4294967296 (0 :: int)))
       \<noteq> right_halo [[1], [2]] 0 1073741824"
proof -
  have m: "map (\<lambda>i. 0 :: int) [0..<n] = replicate n 0" for n
    by (simp add: map_replicate_const)
  have u: "unat (2147483649 :: 32 word) = 2147483649" "unat (2147483649 - 1 :: 32 word) = 2147483648"
    by simp_all
  have s: "sint (1073741824 :: 32 word) = 1073741824"
    "sint (2147483649 - 1073741824 - 1 :: 32 word) = 1073741824"
    by simp_all
  have c: "(1073741824 :: 32 word) < 2147483649" by simp
  have 1: "stencil_base_ctor (\<lambda>d i. 0)
       [\<lparr> is_cpu = False, workgroup_size = 64 \<rparr>, \<lparr> is_cpu = False, workgroup_size = 64 \<rparr>]
       2147483649 1073741824 (replicate 2147483649 1)
     = Inr
       \<lparr> queue = [\<lparr> is_cpu = False, workgroup_size = 64 \<rparr>,
                \<lparr> is_cpu = False, workgroup_size = 64 \<rparr>],
       hbuf = replicate 4294967296 (0 :: int),
       dbuf = [replicate 2147483649 0, replicate 2147483649 0],
       s_buf = [replicate 2147483649 1, replicate 2147483649 1],
       lhalo = 1073741824, rhalo = 1073741824 \<rparr>"
    unfolding stencil_base_ctor_def Let_def u s m using c
    by (simp add: upt_rec [of 0 2] upt_rec [of 1 2])
  have 2: "exchange_halos
       \<lparr> queue = [\<lparr> is_cpu = False, workgroup_size = 64 \<rparr>,
                \<lparr> is_cpu = False, workgroup_size = 64 \<rparr>],
       hbuf = replicate 4294967296 (0 :: int),
       dbuf = [replicate 2147483649 0, replicate 2147483649 0],
       s_buf = [replicate 2147483649 1, replicate 2147483649 1],
       lhalo = 1073741824, rhalo = 1073741824 \<rparr> [[1], [2]]
     = Some
       \<lparr> queue = [\<lparr> is_cpu = False, workgroup_size = 64 \<rparr>,
                \<lparr> is_cpu = False, workgroup_size = 64 \<rparr>],
       hbuf = replicate 4294967296 (0 :: int),
       dbuf = [replicate 2147483649 0, replicate 2147483649 0],
       s_buf = [replicate 2147483649 1, replicate 2147483649 1],
       lhalo = 1073741824, rhalo = 1073741824 \<rparr>"
    by (simp add: exchange_halos_def Let_def trunc_int_2p31)
  have z: "szr [[1], [2 :: int]] 0 1073741824 = 1"
    by (simp add: szr_def part_begin_def)
  have g: "got_right [[1], [2 :: int]] 0 1073741824 = [2]"
    by (simp add: got_right_def z part_begin_def)
  have r: "right_halo [[1], [2 :: int]] 0 1073741824 ! 0 = 2"
    by (simp add: right_halo_def g)
  have l: "drop 1073741824 (seg 2147483648 0 (replicate 4294967296 (0 :: int))) ! 0 = 0"
    by (simp add: seg_def)
  have 3: "drop 1073741824 (seg 2147483648 0 (replicate 4294967296 (0 :: int)))
       \<noteq> right_halo [[1], [2]] 0 1073741824"
    using r l by auto
  show ?thesis using 1 2 3 by (intro conjI)
qed

subsection \<open>The dispatcher\<close>

lemma exchange_halos_result:
  assumes wf: "base_wf st" and x: "length x = length (queue st)"
    and fit: "length (hbuf st) < 2 ^ 32"
  shows "\<exists>hb db. exchange_halos st x = Some (st\<lparr> hbuf := hb, dbuf := db \<rparr>)
     \<and> base_wf (st\<lparr> hbuf := hb, dbuf := db \<rparr>)
     \<and> (\<forall>d < length (queue st). x ! d \<noteq> [] \<longrightarrow>
          (0 < d \<and> 0 < lhalo st \<longrightarrow> take (nat (lhalo st)) (db ! d) = left_halo x d (nat (lhalo st)))
        \<and> (d + 1 < length (queue st) \<and> 0 < rhalo st \<longrightarrow>
             take (nat (rhalo st)) (drop (nat (lhalo st)) (db ! d)) = right_halo x d (nat (rhalo st))))"
proof (cases "1 < length (queue st) \<and> 0 < lhalo st + rhalo st")
  case False
  have p: "0 \<le> lhalo st" "0 \<le> rhalo st" using wf by (simp_all add: base_wf_def)
  have "length (queue st) \<le> 1 \<or> lhalo st + rhalo st = 0" using False p by auto
  then have "length (queue st) \<le> 1 \<or> trunc_int (lhalo st + rhalo st) \<le> 0"
    by (auto simp: trunc_int_small)
  then have "exchange_halos st x = Some (st\<lparr> hbuf := hbuf st, dbuf := dbuf st \<rparr>)"
    by (auto simp: exchange_halos_def Let_def)
  moreover have "base_wf (st\<lparr> hbuf := hbuf st, dbuf := dbuf st \<rparr>)" using wf by simp
  moreover have "\<forall>d < length (queue st). x ! d \<noteq> [] \<longrightarrow>
          (0 < d \<and> 0 < lhalo st \<longrightarrow> take (nat (lhalo st)) (dbuf st ! d) = left_halo x d (nat (lhalo st)))
        \<and> (d + 1 < length (queue st) \<and> 0 < rhalo st \<longrightarrow>
             take (nat (rhalo st)) (drop (nat (lhalo st)) (dbuf st ! d)) = right_halo x d (nat (rhalo st)))"
    using False p by auto
  ultimately show ?thesis by blast
next
  case True
  define nq where "nq = length (queue st)"
  define L where "L = nat (lhalo st)"
  define R where "R = nat (rhalo st)"
  define H where "H = (\<lambda>d. halo_seg x nq L R d (seg (L + R) d (hbuf st)))"
  define hb where "hb = concat (map H [0..<nq])"
  define db where "db = map (\<lambda>d. upload x nq L R d (H d) (dbuf st ! d)) [0..<nq]"
  have lh: "lhalo st = int L" and rh: "rhalo st = int R"
    using wf by (simp_all add: base_wf_def L_def R_def)
  have LR: "nat (lhalo st + rhalo st) = L + R" by (simp add: lh rh nat_add_distrib)
  have hb0: "length (hbuf st) = nq * (L + R)"
    using wf by (simp add: base_wf_def LR nq_def)
  have db0: "length (dbuf st) = nq" using wf by (simp add: base_wf_def nq_def)
  have dbl: "L + R \<le> length (dbuf st ! d)" if "d < nq" for d
  proof -
    have "int L + int R \<le> int (length (dbuf st ! d))"
      using wf db0 that by (simp add: base_wf_def lh rh list_all_length)
    then show ?thesis by linarith
  qed
  have lsz: "length (seg (L + R) d (hbuf st)) = L + R" if "d < nq" for d
    using hb0 that by (rule length_seg_nq)
  have lH: "length (H d) = L + R" if "d < nq" for d
    unfolding H_def using lsz [OF that] by (rule length_halo_seg)
  have e: "exchange_halos st x = Some (st\<lparr> hbuf := hb, dbuf := db \<rparr>)"
    using exchange_halos_eq [OF wf x _ _ fit] True
    by (simp add: hb_def db_def H_def nq_def L_def R_def)
  have lhb: "length hb = nq * (L + R)" unfolding hb_def using lH by (rule length_concat_uniform)
  have lup: "length (upload x nq L R d (H d) (dbuf st ! d)) = length (dbuf st ! d)" if "d < nq" for d
    using lH [OF that] dbl [OF that] by (simp add: upload_def)
  have wf': "base_wf (st\<lparr> hbuf := hb, dbuf := db \<rparr>)"
    using wf lhb lup dbl
    by (simp add: base_wf_def nq_def [symmetric] db_def list_all_length lh rh nat_add_distrib)
  have "(0 < d \<and> 0 < lhalo st \<longrightarrow> take L (db ! d) = left_halo x d L)
      \<and> (d + 1 < nq \<and> 0 < rhalo st \<longrightarrow> take R (drop L (db ! d)) = right_halo x d R)"
    if d: "d < nq" and ne: "x ! d \<noteq> []" for d
  proof (intro conjI impI)
    assume a: "0 < d \<and> 0 < lhalo st"
    then have "db ! d = H d @ drop (L + R) (dbuf st ! d)"
      using d ne by (simp add: db_def upload_def lh)
    then have "take L (db ! d) = take L (H d)" using lH [OF d] by simp
    also have "\<dots> = left_halo x d L"
      unfolding H_def using d ne x lsz [OF d] a
      by (intro halo_seg_left) (simp_all add: nq_def lh)
    finally show "take L (db ! d) = left_halo x d L" .
  next
    assume a: "d + 1 < nq \<and> 0 < rhalo st"
    then have "db ! d = H d @ drop (L + R) (dbuf st ! d)"
      using d ne by (simp add: db_def upload_def rh)
    then have "drop L (db ! d) = drop L (H d) @ drop (L + R) (dbuf st ! d)"
      using lH [OF d] by simp
    also have "drop L (H d) = right_halo x d R"
      unfolding H_def using d ne x lsz [OF d] a
      by (intro halo_seg_right) (simp_all add: nq_def rh)
    finally show "take R (drop L (db ! d)) = right_halo x d R"
      by (simp add: length_right_halo)
  qed
  then show ?thesis using e wf' unfolding nq_def [symmetric] L_def [symmetric] R_def [symmetric]
    by blast
qed

lemma read_policy_cong:
  assumes "hl \<and> 0 < L \<longrightarrow> take L xrem = take L xrem'"
    and "hr \<and> 0 < R \<longrightarrow> take R (drop L xrem) = take R (drop L xrem')"
    and "L + R \<le> length xrem" and "L + R \<le> length xrem'"
  shows "read_policy g n hl hr (int L) (int R) xloc xrem
       = read_policy g n hl hr (int L) (int R) xloc xrem'"
proof -
  have l: "xrem ! nat (int L + g) = xrem' ! nat (int L + g)" if "hl" "g < 0" "0 \<le> int L + g"
  proof -
    have i: "nat (int L + g) < L" using that by linarith
    then have "take L xrem = take L xrem'" using assms(1) that by auto
    then have "take L xrem ! nat (int L + g) = take L xrem' ! nat (int L + g)" by simp
    then show ?thesis using i by simp
  qed
  have r: "xrem ! nat (int L + g - int n) = xrem' ! nat (int L + g - int n)"
    if "hr" "int n \<le> g" "g < int n + int R"
  proof -
    define j where "j = nat (g - int n)"
    have j: "j < R" using that unfolding j_def by linarith
    have e: "nat (int L + g - int n) = L + j" using that unfolding j_def by linarith
    have "take R (drop L xrem) = take R (drop L xrem')" using assms(2) that j by auto
    then have "take R (drop L xrem) ! j = take R (drop L xrem') ! j" by simp
    then have "drop L xrem ! j = drop L xrem' ! j" using j by simp
    then show ?thesis unfolding e using assms(3,4) by simp
  qed
  show ?thesis
    unfolding read_policy_def using l r by auto
qed

lemma launch_eq:
  assumes wf: "kernel_wf n lh rh sc xloc xrem yd"
    and f: "k = fast_conv_kernel \<longrightarrow> 0 < bs \<and> int bs + lh + rh < 2 ^ 31"
  shows "launch k bs n hl hr lh rh sc xloc xrem yd alpha beta =
     Some (map (\<lambda>idx. let total = stencil_sum sc
                            (\<lambda>j. read_policy (read_pos k idx j) n hl hr lh rh xloc xrem) lh rh
                      in if alpha = 0 then beta * total else alpha * yd ! idx + beta * total)
             [0..<n] @ drop n yd)"
proof (cases k)
  case slow_conv_kernel
  then show ?thesis using slow_conv_eq [OF wf] by (simp add: launch_def read_pos_def)
next
  case fast_conv_kernel
  then have "0 < bs" "int bs + lh + rh < 2 ^ 31" using f by simp_all
  then show ?thesis using fast_conv_eq [OF wf] fast_conv_kernel by (simp add: launch_def read_pos_def)
qed

lemma length_halo_of: "0 \<le> lh \<Longrightarrow> 0 \<le> rh \<Longrightarrow> int (length (halo_of x d lh rh)) = lh + rh"
  by (simp add: halo_of_def length_left_halo length_right_halo)

lemma convolve_dev_eq:
  assumes wf: "stencil_wf st" and sf: "sizes_fit st" and x: "length x = length (queue st)"
    and d: "d < length (queue st)" and y: "length y = length (queue st)"
    and ly: "length (x ! d) \<le> length (y ! d)"
    and halo: "x ! d \<noteq> [] \<longrightarrow>
          (0 < d \<and> 0 < lhalo st \<longrightarrow> take (nat (lhalo st)) (dbuf st ! d) = left_halo x d (nat (lhalo st)))
        \<and> (d + 1 < length (queue st) \<and> 0 < rhalo st \<longrightarrow>
             take (nat (rhalo st)) (drop (nat (lhalo st)) (dbuf st ! d)) = right_halo x d (nat (rhalo st)))"
  shows "convolve_dev st x alpha beta d y = Some (y[d := conv_dev st x alpha beta d (y ! d)])"
proof (cases "x ! d = []")
  case True
  then show ?thesis using d x by (simp add: convolve_dev_def part_size_def conv_dev_def)
next
  case False
  define L where "L = nat (lhalo st)"
  define R where "R = nat (rhalo st)"
  define n where "n = length (x ! d)"
  have b: "base_wf st" using wf by (simp add: stencil_wf_def)
  have lh: "lhalo st = int L" and rh: "rhalo st = int R"
    using b by (simp_all add: base_wf_def L_def R_def)
  have ldb: "length (dbuf st) = length (queue st)" using b by (simp add: base_wf_def)
  have dbl: "int L + int R \<le> int (length (dbuf st ! d))"
    using b d ldb by (simp add: base_wf_def list_all_length lh rh)
  then have dbl': "L + R \<le> length (dbuf st ! d)" by linarith
  have ls: "length (s_buf st) = length (queue st)" "length (conv st) = length (queue st)"
    using wf by (simp_all add: stencil_wf_def)
  have sl: "int L + int R + 1 \<le> int (length (s_buf st ! d))"
    using wf d ls by (simp add: stencil_wf_def list_all_length lh rh)
  have w31: "int L + int R + 1 < 2 ^ 31" using sf by (simp add: sizes_fit_def lh rh)
  have kw: "kernel_wf n (int L) (int R) (s_buf st ! d) (x ! d) (dbuf st ! d) (y ! d)"
    using False dbl sl ly w31 by (simp add: kernel_wf_def n_def)
  have wg: "0 < workgroup_size (queue st ! d)"
    using wf d by (simp add: stencil_wf_def list_all_length)
  have fk: "conv st ! d = fast_conv_kernel \<longrightarrow> 0 < workgroup_size (queue st ! d)
      \<and> int (workgroup_size (queue st ! d)) + int L + int R < 2 ^ 31"
    using wg sf d by (simp add: sizes_fit_def lh rh)
  have rp: "read_policy g n (0 < d) (d + 1 < length x) (int L) (int R) (x ! d) (dbuf st ! d)
      = read_policy g n (0 < d) (d + 1 < length x) (int L) (int R) (x ! d) (halo_of x d (int L) (int R))"
    for g
  proof (rule read_policy_cong)
    show "0 < d \<and> 0 < L \<longrightarrow> take L (dbuf st ! d) = take L (halo_of x d (int L) (int R))"
      using halo False by (simp add: halo_of_def length_left_halo lh L_def [symmetric])
    show "d + 1 < length x \<and> 0 < R \<longrightarrow>
        take R (drop L (dbuf st ! d)) = take R (drop L (halo_of x d (int L) (int R)))"
      using halo False x
      by (simp add: halo_of_def length_left_halo length_right_halo rh L_def [symmetric] R_def [symmetric])
    show "L + R \<le> length (dbuf st ! d)" by (rule dbl')
    show "L + R \<le> length (halo_of x d (int L) (int R))"
      by (simp add: halo_of_def length_left_halo length_right_halo)
  qed
  have rp': "read_policy g (length (x ! d)) (0 < d) (Suc d < length x) (int L) (int R) (x ! d) (dbuf st ! d)
      = read_policy g (length (x ! d)) (0 < d) (Suc d < length x) (int L) (int R) (x ! d)
          (halo_of x d (int L) (int R))"
    for g
    using rp [of g] by (simp add: n_def)
  have la: "launch (conv st ! d) (workgroup_size (queue st ! d)) n (0 < d) (d + 1 < length x)
        (int L) (int R) (s_buf st ! d) (x ! d) (dbuf st ! d) (y ! d) alpha beta
      = Some (conv_dev st x alpha beta d (y ! d))"
    unfolding launch_eq [OF kw fk] using False
    by (simp add: conv_dev_def kernel_sum_def rp' lh rh n_def Let_def)
  have rd: "buf_read (conv st) (int d) = Some (conv st ! d)"
    "buf_read (queue st) (int d) = Some (queue st ! d)"
    "buf_read (s_buf st) (int d) = Some (s_buf st ! d)"
    "buf_read x (int d) = Some (x ! d)"
    "buf_read (dbuf st) (int d) = Some (dbuf st ! d)"
    "buf_read y (int d) = Some (y ! d)"
    using d ls ldb x y by (simp_all add: buf_read_def)
  have ps: "part_size x d = Some n" using d x by (simp add: part_size_def n_def)
  have n0: "n \<noteq> 0" using False by (simp add: n_def)
  show ?thesis
    unfolding convolve_dev_def ps rd Let_def
    using n0 la x by (simp add: lh rh)
qed

lemma convolve_loop:
  assumes wf: "stencil_wf st" and sf: "sizes_fit st" and x: "length x = length (queue st)"
    and y: "length y = length (queue st)"
    and ly: "\<And>d. d < length (queue st) \<Longrightarrow> length (x ! d) \<le> length (y ! d)"
    and halo: "\<And>d. d < length (queue st) \<Longrightarrow> x ! d \<noteq> [] \<longrightarrow>
          (0 < d \<and> 0 < lhalo st \<longrightarrow> take (nat (lhalo st)) (dbuf st ! d) = left_halo x d (nat (lhalo st)))
        \<and> (d + 1 < length (queue st) \<and> 0 < rhalo st \<longrightarrow>
             take (nat (rhalo st)) (drop (nat (lhalo st)) (dbuf st ! d)) = right_halo x d (nat (rhalo st)))"
    and k: "k \<le> length (queue st)"
  shows "for_loop (convolve_dev st x alpha beta) [0..<k] y =
     Some (map (\<lambda>d. conv_dev st x alpha beta d (y ! d)) [0..<k] @ drop k y)"
  using k
proof (induction k)
  case 0
  show ?case by simp
next
  case (Suc k)
  let ?D = "map (\<lambda>d. conv_dev st x alpha beta d (y ! d)) [0..<k]"
  have kk: "k < length y" using Suc.prems y by simp
  have dk: "drop k y = y ! k # drop (Suc k) y" using kk by (simp add: Cons_nth_drop_Suc)
  have nth: "(?D @ drop k y) ! k = y ! k" using kk by (simp add: nth_append)
  have upd: "(?D @ drop k y)[k := v] = ?D @ v # drop (Suc k) y" for v
    using dk by (simp add: list_update_append)
  have len: "length (?D @ drop k y) = length (queue st)" using kk y by simp
  have "for_loop (convolve_dev st x alpha beta) [0..<k] y = Some (?D @ drop k y)"
    using Suc by simp
  moreover have "convolve_dev st x alpha beta k (?D @ drop k y)
      = Some ((?D @ drop k y)[k := conv_dev st x alpha beta k ((?D @ drop k y) ! k)])"
    using wf sf x _ len
  proof (rule convolve_dev_eq)
    show "k < length (queue st)" using Suc.prems by simp
    then show "length (x ! k) \<le> length ((?D @ drop k y) ! k)" unfolding nth by (rule ly)
    show "x ! k \<noteq> [] \<longrightarrow>
          (0 < k \<and> 0 < lhalo st \<longrightarrow> take (nat (lhalo st)) (dbuf st ! k) = left_halo x k (nat (lhalo st)))
        \<and> (k + 1 < length (queue st) \<and> 0 < rhalo st \<longrightarrow>
             take (nat (rhalo st)) (drop (nat (lhalo st)) (dbuf st ! k)) = right_halo x k (nat (rhalo st)))"
      using \<open>k < length (queue st)\<close> by (rule halo)
  qed
  ultimately show ?case
    by (simp add: for_loop_append nth upd)
qed

lemma conv_dev_state:
  "conv_dev (st\<lparr> hbuf := hb, dbuf := db \<rparr>) x alpha beta d yd = conv_dev st x alpha beta d yd"
  by (simp add: conv_dev_def)

lemma stencil_wf_state:
  "base_wf (st\<lparr> hbuf := hb, dbuf := db \<rparr>) \<Longrightarrow> stencil_wf st
     \<Longrightarrow> stencil_wf (st\<lparr> hbuf := hb, dbuf := db \<rparr>)"
  by (simp add: stencil_wf_def)

lemma sizes_fit_state: "sizes_fit (st\<lparr> hbuf := hb, dbuf := db \<rparr>) = sizes_fit st"
  by (simp add: sizes_fit_def)

lemma sizes_fit_hbuf:
  assumes "base_wf st" and "sizes_fit st"
  shows "length (hbuf st) < 2 ^ 32"
proof -
  have "int (length (hbuf st)) = int (length (queue st)) * (lhalo st + rhalo st)"
    using assms(1) by (simp add: base_wf_def)
  then have "int (length (hbuf st)) < 2 ^ 32" using assms(2) by (simp add: sizes_fit_def)
  then show ?thesis by (metis of_nat_less_numeral_power_cancel_iff)
qed

lemma convolve_eq:
  assumes wf: "stencil_wf st" and sf: "sizes_fit st" and x: "length x = length (queue st)"
    and y: "map length y = map length x"
  shows "\<exists>hb db. convolve st x y alpha beta =
            Some (st\<lparr> hbuf := hb, dbuf := db \<rparr>,
                  map (\<lambda>d. conv_dev st x alpha beta d (y ! d)) [0..<length (queue st)])
          \<and> stencil_wf (st\<lparr> hbuf := hb, dbuf := db \<rparr>)
          \<and> sizes_fit (st\<lparr> hbuf := hb, dbuf := db \<rparr>)"
proof -
  have b: "base_wf st" using wf by (simp add: stencil_wf_def)
  have fit: "length (hbuf st) < 2 ^ 32" using b sf by (rule sizes_fit_hbuf)
  obtain hb db where e: "exchange_halos st x = Some (st\<lparr> hbuf := hb, dbuf := db \<rparr>)"
    and b': "base_wf (st\<lparr> hbuf := hb, dbuf := db \<rparr>)"
    and h: "\<forall>d < length (queue st). x ! d \<noteq> [] \<longrightarrow>
          (0 < d \<and> 0 < lhalo st \<longrightarrow> take (nat (lhalo st)) (db ! d) = left_halo x d (nat (lhalo st)))
        \<and> (d + 1 < length (queue st) \<and> 0 < rhalo st \<longrightarrow>
             take (nat (rhalo st)) (drop (nat (lhalo st)) (db ! d)) = right_halo x d (nat (rhalo st)))"
    using exchange_halos_result [OF b x fit] by blast
  let ?st = "st\<lparr> hbuf := hb, dbuf := db \<rparr>"
  have wf': "stencil_wf ?st" using b' wf by (rule stencil_wf_state)
  have sf': "sizes_fit ?st" using sf by (simp add: sizes_fit_state)
  have ly: "length y = length (queue st)" using y x by (metis length_map)
  have lyd: "length (x ! d) \<le> length (y ! d)" if "d < length (queue st)" for d
  proof -
    have "map length y ! d = map length x ! d" using y by simp
    then show ?thesis using that x ly by simp
  qed
  have "for_loop (convolve_dev ?st x alpha beta) [0..<length (queue ?st)] y =
     Some (map (\<lambda>d. conv_dev ?st x alpha beta d (y ! d)) [0..<length (queue ?st)]
           @ drop (length (queue ?st)) y)"
  proof (rule convolve_loop [OF wf' sf'])
    show "length x = length (queue ?st)" using x by simp
    show "length y = length (queue ?st)" using ly by simp
    show "length (x ! d) \<le> length (y ! d)" if "d < length (queue ?st)" for d
      using that lyd by simp
    show "x ! d \<noteq> [] \<longrightarrow>
          (0 < d \<and> 0 < lhalo ?st \<longrightarrow>
             take (nat (lhalo ?st)) (dbuf ?st ! d) = left_halo x d (nat (lhalo ?st)))
        \<and> (d + 1 < length (queue ?st) \<and> 0 < rhalo ?st \<longrightarrow>
             take (nat (rhalo ?st)) (drop (nat (lhalo ?st)) (dbuf ?st ! d))
               = right_halo x d (nat (rhalo ?st)))"
      if "d < length (queue ?st)" for d
      using that h by simp
    show "length (queue ?st) \<le> length (queue ?st)" by simp
  qed
  then have "convolve st x y alpha beta =
      Some (?st, map (\<lambda>d. conv_dev st x alpha beta d (y ! d)) [0..<length (queue st)])"
    using e ly by (simp add: convolve_def conv_dev_state)
  then show ?thesis using wf' sf' by blast
qed

lemma nth_conv_dev:
  assumes "idx < length (x ! d)"
  shows "conv_dev st x alpha beta d yd ! idx =
     (if alpha = 0
      then beta * kernel_sum (conv st ! d) (s_buf st ! d) (lhalo st) (rhalo st) x d idx
      else alpha * yd ! idx
           + beta * kernel_sum (conv st ! d) (s_buf st ! d) (lhalo st) (rhalo st) x d idx)"
proof -
  have "x ! d \<noteq> []" using assms by auto
  then show ?thesis using assms by (simp add: conv_dev_def nth_append)
qed

lemma kernel_sum_fits:
  assumes "k = fast_conv_kernel \<longrightarrow> lh \<le> 2 ^ 31 \<and> int idx + rh < 2 ^ 31"
  shows "kernel_sum k sc lh rh x d idx = conv_at sc lh rh x d idx"
  unfolding kernel_sum_def conv_at_def
proof (rule stencil_sum_cong)
  fix j assume j: "- lh \<le> j" "j \<le> rh"
  have "read_pos k idx j = int idx + j"
    using assms j by (intro read_pos_exact) auto
  then show "read_policy (read_pos k idx j) (length (x ! d)) (0 < d) (d + 1 < length x) lh rh (x ! d)
       (halo_of x d lh rh)
     = read_policy (int idx + j) (length (x ! d)) (0 < d) (d + 1 < length x) lh rh (x ! d)
       (halo_of x d lh rh)"
    by simp
qed

lemma length_conv_dev:
  "length (x ! d) \<le> length yd \<Longrightarrow> length (conv_dev st x alpha beta d yd) = length yd"
  by (simp add: conv_dev_def)

lemma conv_dev_overwrite:
  assumes "length yd = length (x ! d)" and "length yd' = length (x ! d)"
  shows "conv_dev st x 0 beta d yd = conv_dev st x 0 beta d yd'"
  using assms by (cases "x ! d = []") (simp_all add: conv_dev_def)


subsection \<open>The contract of \<open>convolve\<close>\<close>

text \<open>
  Where the sizes fit the integer types of the code, \<open>convolve\<close> succeeds and
  keeps the shape of \<open>y\<close>; every element is \<open>beta * c\<close> when \<open>alpha = 0\<close> and
  \<open>alpha * y_old + beta * c\<close> otherwise, \<open>c\<close> being the sum the kernel of the
  device computes; \<open>c\<close> is the stencil sum over the read policy at \<open>idx + j\<close> on a
  device with the generic kernel, and on a device with the tiled kernel at
  the indices with \<open>idx + rhalo < 2^31\<close>. With \<open>alpha = 0\<close> the output is the same
  for every \<open>y\<close> of that shape.
\<close>

lemma convolve_contract_in_range:
  assumes wf: "stencil_wf st" and sf: "sizes_fit st" and x: "length x = length (queue st)"
    and y: "map length y = map length x"
  shows "\<exists>st' y'. convolve st x y alpha beta = Some (st', y')
     \<and> map length y' = map length y
     \<and> (\<forall>d < length x. \<forall>idx < length (x ! d).
          y' ! d ! idx =
            (if alpha = 0
             then beta * kernel_sum (conv st ! d) (s_buf st ! d) (lhalo st) (rhalo st) x d idx
             else alpha * y ! d ! idx
                  + beta * kernel_sum (conv st ! d) (s_buf st ! d) (lhalo st) (rhalo st) x d idx)
          \<and> ((conv st ! d = fast_conv_kernel \<longrightarrow> int idx + rhalo st < 2 ^ 31) \<longrightarrow>
               kernel_sum (conv st ! d) (s_buf st ! d) (lhalo st) (rhalo st) x d idx
               = conv_at (s_buf st ! d) (lhalo st) (rhalo st) x d idx))
     \<and> (alpha = 0 \<longrightarrow>
          (\<forall>y2. map length y2 = map length x \<longrightarrow>
             map_option snd (convolve st x y2 alpha beta) = Some y'))"
proof -
  define y' where "y' = map (\<lambda>d. conv_dev st x alpha beta d (y ! d)) [0..<length (queue st)]"
  obtain hb db where c: "convolve st x y alpha beta = Some (st\<lparr> hbuf := hb, dbuf := db \<rparr>, y')"
    using convolve_eq [OF wf sf x y] unfolding y'_def by blast
  have ly: "length y = length (queue st)" using y x by (metis length_map)
  have lyd: "length (y ! d) = length (x ! d)" if "d < length (queue st)" for d
  proof -
    have "map length y ! d = map length x ! d" using y by simp
    then show ?thesis using that x ly by simp
  qed
  have 1: "map length y' = map length y"
  proof (rule nth_equalityI)
    show "length (map length y') = length (map length y)" by (simp add: y'_def ly)
    fix d assume "d < length (map length y')"
    then have d: "d < length (queue st)" by (simp add: y'_def)
    then have "length (conv_dev st x alpha beta d (y ! d)) = length (y ! d)"
      using lyd [OF d] by (intro length_conv_dev) simp
    then show "map length y' ! d = map length y ! d" using d ly by (simp add: y'_def)
  qed
  have wg: "0 < workgroup_size (queue st ! d)" if "d < length (queue st)" for d
    using wf that by (simp add: stencil_wf_def list_all_length)
  have lh: "0 \<le> lhalo st" "lhalo st \<le> 2 ^ 31"
    using wf by (simp_all add: stencil_wf_def base_wf_def)
  have 2: "\<forall>d < length x. \<forall>idx < length (x ! d).
          y' ! d ! idx =
            (if alpha = 0
             then beta * kernel_sum (conv st ! d) (s_buf st ! d) (lhalo st) (rhalo st) x d idx
             else alpha * y ! d ! idx
                  + beta * kernel_sum (conv st ! d) (s_buf st ! d) (lhalo st) (rhalo st) x d idx)
          \<and> ((conv st ! d = fast_conv_kernel \<longrightarrow> int idx + rhalo st < 2 ^ 31) \<longrightarrow>
               kernel_sum (conv st ! d) (s_buf st ! d) (lhalo st) (rhalo st) x d idx
               = conv_at (s_buf st ! d) (lhalo st) (rhalo st) x d idx)"
  proof (intro allI impI conjI)
    fix d idx assume d: "d < length x" and idx: "idx < length (x ! d)"
    show "y' ! d ! idx =
            (if alpha = 0
             then beta * kernel_sum (conv st ! d) (s_buf st ! d) (lhalo st) (rhalo st) x d idx
             else alpha * y ! d ! idx
                  + beta * kernel_sum (conv st ! d) (s_buf st ! d) (lhalo st) (rhalo st) x d idx)"
      using d idx x by (simp add: y'_def nth_conv_dev)
    assume "conv st ! d = fast_conv_kernel \<longrightarrow> int idx + rhalo st < 2 ^ 31"
    then show "kernel_sum (conv st ! d) (s_buf st ! d) (lhalo st) (rhalo st) x d idx
               = conv_at (s_buf st ! d) (lhalo st) (rhalo st) x d idx"
      using lh by (intro kernel_sum_fits) simp
  qed
  have 3: "map_option snd (convolve st x y2 alpha beta) = Some y'"
    if a: "alpha = 0" and y2: "map length y2 = map length x" for y2
  proof -
    have ly2: "length y2 = length (queue st)" using y2 x by (metis length_map)
    have lyd2: "length (y2 ! d) = length (x ! d)" if "d < length (queue st)" for d
    proof -
      have "map length y2 ! d = map length x ! d" using y2 by simp
      then show ?thesis using that x ly2 by simp
    qed
    have "map (\<lambda>d. conv_dev st x alpha beta d (y2 ! d)) [0..<length (queue st)] = y'"
      unfolding y'_def a
    proof (rule map_cong [OF refl])
      fix d assume "d \<in> set [0..<length (queue st)]"
      then have d: "d < length (queue st)" by simp
      show "conv_dev st x 0 beta d (y2 ! d) = conv_dev st x 0 beta d (y ! d)"
        using lyd2 [OF d] lyd [OF d] by (rule conv_dev_overwrite)
    qed
    moreover obtain hb2 db2 where "convolve st x y2 alpha beta =
            Some (st\<lparr> hbuf := hb2, dbuf := db2 \<rparr>,
                  map (\<lambda>d. conv_dev st x alpha beta d (y2 ! d)) [0..<length (queue st)])"
      using convolve_eq [OF wf sf x y2, of alpha beta] by blast
    ultimately show ?thesis by simp
  qed
  show ?thesis
  proof (intro exI conjI)
    show "convolve st x y alpha beta = Some (st\<lparr> hbuf := hb, dbuf := db \<rparr>, y')" by (rule c)
    show "map length y' = map length y" by (rule 1)
    show "\<forall>d < length x. \<forall>idx < length (x ! d).
          y' ! d ! idx =
            (if alpha = 0
             then beta * kernel_sum (conv st ! d) (s_buf st ! d) (lhalo st) (rhalo st) x d idx
             else alpha * y ! d ! idx
                  + beta * kernel_sum (conv st ! d) (s_buf st ! d) (lhalo st) (rhalo st) x d idx)
          \<and> ((conv st ! d = fast_conv_kernel \<longrightarrow> int idx + rhalo st < 2 ^ 31) \<longrightarrow>
               kernel_sum (conv st ! d) (s_buf st ! d) (lhalo st) (rhalo st) x d idx
               = conv_at (s_buf st ! d) (lhalo st) (rhalo st) x d idx)"
      by (rule 2)
    show "alpha = 0 \<longrightarrow>
          (\<forall>y2. map length y2 = map length x \<longrightarrow>
             map_option snd (convolve st x y2 alpha beta) = Some y')"
      using 3 by blast
  qed
qed


lemma single_queue_convolve:
  assumes wf: "stencil_wf st" and sf: "sizes_fit st" and q: "length (queue st) = 1"
    and y: "length x \<le> length y"
  shows "convolve st [x] [y] alpha beta = Some (st, [conv_dev st [x] alpha beta 0 y])"
proof -
  have e: "exchange_halos st [x] = Some st" using q by (simp add: exchange_halos_def)
  have "for_loop (convolve_dev st [x] alpha beta) [0..<1] [y]
      = Some (map (\<lambda>d. conv_dev st [x] alpha beta d ([y] ! d)) [0..<1] @ drop 1 [y])"
    using wf sf by (rule convolve_loop) (simp_all add: q y)
  then show ?thesis using e q by (simp add: convolve_def)
qed

lemma tiled_values_2p31:
  fixes x :: "int list"
  defines "x \<equiv> 0 # replicate 2147483648 1"
  shows "map (\<lambda>idx. 1 * kernel_sum fast_conv_kernel [1] 0 0 [x] 0 idx) [0..<2147483649]
     = 0 # replicate 2147483647 1 @ [0]"
proof (rule nth_equalityI)
  show "length (map (\<lambda>idx. 1 * kernel_sum fast_conv_kernel [1] 0 0 [x] 0 idx) [0..<2147483649])
      = length (0 # replicate 2147483647 1 @ [0 :: int])"
    by simp
next
  fix i assume "i < length (map (\<lambda>idx. 1 * kernel_sum fast_conv_kernel [1] 0 0 [x] 0 idx) [0..<2147483649])"
  then have i: "i < 2147483649" by simp
  have lx: "length x = 2147483649" by (simp add: x_def)
  have k: "kernel_sum fast_conv_kernel [1] 0 0 [x] 0 i
      = read_policy (trunc_int (int i)) 2147483649 False False 0 0 x (halo_of [x] 0 0 0)"
    by (simp add: kernel_sum_def stencil_sum_def read_pos_def lx)
  have v: "read_policy (trunc_int (int i)) 2147483649 False False 0 0 x (halo_of [x] 0 0 0)
      = (if i = 0 \<or> i = 2147483648 then 0 else 1)"
  proof (cases "i = 2147483648")
    case True
    then show ?thesis by (simp add: trunc_int_2p31 read_policy_def x_def)
  next
    case False
    then have "int i < 2 ^ 31" using i by simp
    then have t: "trunc_int (int i) = int i" by (intro trunc_int_id) auto
    show ?thesis unfolding t using i False by (simp add: read_policy_def x_def nth_Cons')
  qed
  have r: "(0 # replicate 2147483647 1 @ [0 :: int]) ! i = (if i = 0 \<or> i = 2147483648 then 0 else 1)"
    using i by (auto simp: nth_Cons' nth_append)
  show "map (\<lambda>idx. 1 * kernel_sum fast_conv_kernel [1] 0 0 [x] 0 idx) [0..<2147483649] ! i
      = (0 # replicate 2147483647 1 @ [0]) ! i"
    using i by (simp only: nth_map_upt r) (simp add: k v)
qed

text \<open>
  C1, where it fails. One device that is not a CPU, with work groups of one
  work item, and the stencil \<open>[1]\<close> with center 0 (\<open>lhalo = rhalo = 0\<close>, the tiled
  kernel). On the vector of \<open>2^31 + 1\<close> elements \<open>x = [0, 1, ..., 1]\<close>, with
  \<open>alpha = 0\<close> and \<open>beta = 1\<close>, the contract asks for \<open>y = x\<close>, hence for
  \<open>y[2^31] = 1\<close>; \<open>convolve\<close> returns \<open>y[2^31] = 0\<close>, the element \<open>x[0]\<close> that the
  tiled kernel reads with its narrowed index. This is the defect of C4, seen
  through \<open>convolve\<close>.
\<close>

theorem convolve_breaks_contract:
  "stencil_ctor (\<lambda>d i. 0) 4 [\<lparr> is_cpu = False, workgroup_size = 1 \<rparr>] [1 :: int] 0
     = Inr
       \<lparr> queue = [\<lparr> is_cpu = False, workgroup_size = 1 \<rparr>], hbuf = [],
          dbuf = [[0]], s_buf = [[1]], lhalo = 0, rhalo = 0,
          conv = [fast_conv_kernel], loc_s = [4], loc_x = [4] \<rparr>
   \<and> convolve
       \<lparr> queue = [\<lparr> is_cpu = False, workgroup_size = 1 \<rparr>], hbuf = [],
          dbuf = [[0]], s_buf = [[1]], lhalo = 0, rhalo = 0,
          conv = [fast_conv_kernel], loc_s = [4], loc_x = [4] \<rparr>
       [0 # replicate 2147483648 1] [replicate 2147483649 0] 0 1
     = Some (\<lparr> queue = [\<lparr> is_cpu = False, workgroup_size = 1 \<rparr>], hbuf = [],
          dbuf = [[0]], s_buf = [[1]], lhalo = 0, rhalo = 0,
          conv = [fast_conv_kernel], loc_s = [4], loc_x = [4] \<rparr>,
             [0 # replicate 2147483647 1 @ [0 :: int]])
   \<and> (0 # replicate 2147483647 1 @ [0 :: int]) ! 2147483648 = 0
   \<and> 1 * conv_at [1] 0 0 [0 # replicate 2147483648 1] 0 2147483648 = (1 :: int)"
proof -
  let ?st = "\<lparr> queue = [\<lparr> is_cpu = False, workgroup_size = 1 \<rparr>], hbuf = [],
          dbuf = [[0]], s_buf = [[1]], lhalo = 0, rhalo = 0,
          conv = [fast_conv_kernel], loc_s = [4], loc_x = [4] \<rparr> :: int stencil"
  define x where "x = 0 # replicate 2147483648 (1 :: int)"
  define y where "y = replicate 2147483649 (0 :: int)"
  have 1: "stencil_ctor (\<lambda>d i. 0) 4 [\<lparr> is_cpu = False, workgroup_size = 1 \<rparr>] [1] 0 = Inr ?st"
    by code_simp
  have wf: "stencil_wf ?st" by (simp add: stencil_wf_def base_wf_def)
  have sf: "sizes_fit ?st" by (simp add: sizes_fit_def)
  have lx: "length x = 2147483649" by (simp add: x_def)
  have ly: "length y = length x" by (simp add: x_def y_def)
  have ne: "x \<noteq> []" using lx by auto
  have "conv_dev ?st [x] 0 1 0 y = 0 # replicate 2147483647 1 @ [0]"
    using tiled_values_2p31 lx ly ne by (simp add: conv_dev_def x_def [symmetric])
  then have 2: "convolve ?st [x] [y] 0 1 = Some (?st, [0 # replicate 2147483647 1 @ [0]])"
    using single_queue_convolve [OF wf sf, of x y 0 1] ly by simp
  have 3: "(0 # replicate 2147483647 1 @ [0 :: int]) ! 2147483648 = 0"
    by (simp add: nth_Cons' nth_append)
  have 4: "1 * conv_at [1] 0 0 [x] 0 2147483648 = (1 :: int)"
    by (simp add: conv_at_def stencil_sum_def read_policy_def x_def)
  show ?thesis using 1 2 3 4 unfolding x_def y_def by (intro conjI)
qed

subsection \<open>Repeated calls\<close>




subsection \<open>Construction and what a call keeps\<close>

lemma stencil_ctor_wf:
  assumes c: "stencil_ctor mem sizeof_T q coefs center = Inr st"
    and n: "length coefs < 2 ^ 32"
    and g: "list_all (\<lambda>dev. 0 < workgroup_size dev) q"
  shows "stencil_wf st \<and> queue st = q \<and> s_buf st = map (\<lambda>d. coefs) [0..<length q]
     \<and> lhalo st = uint center \<and> rhalo st = int (length coefs) - uint center - 1
     \<and> conv st = map (\<lambda>dev. fst (init_device sizeof_T (word_of_nat (length coefs)) (lhalo st) (rhalo st) dev)) q"
proof -
  define width where "width = (word_of_nat (length coefs) :: 32 word)"
  obtain b where b: "stencil_base_ctor mem q width center coefs = Inr b"
    and st: "st = init sizeof_T width b"
    using c by (auto simp: stencil_ctor_def Let_def width_def split: sum.splits)
  have ok: "q \<noteq> []" "center < width" "uint center < 2 ^ 31" "uint width - uint center - 1 < 2 ^ 31"
    using ctor_Inr_iff [of mem q width center coefs] b by auto
  obtain b' where b': "stencil_base_ctor mem q width center coefs = Inr b'" "queue b' = q"
      "lhalo b' = uint center" "rhalo b' = uint width - uint center - 1"
    using ctor_succeeds [OF ok, of mem coefs] by blast
  have bb: "b' = b" using b b'(1) by simp
  have un: "unat width = length coefs"
    using n by (simp add: width_def unat_of_nat)
  have uw: "uint width = int (length coefs)"
    using un by (simp add: uint_nat)
  have w0: "width \<noteq> 0" using ok(2) by (auto simp: word_less_def)
  have cw: "0 \<le> uint width - uint center - 1" using ok(2) by (simp add: word_less_def)
  have beq: "b = \<lparr> queue = q, hbuf = replicate (length q * unat (width - 1)) 0,
                 dbuf = map (\<lambda>d. map (mem d) [0..<unat width]) [0..<length q],
                 s_buf = map (\<lambda>d. coefs) [0..<length q],
                 lhalo = sint center, rhalo = sint (width - center - 1) \<rparr>"
    using b by (auto simp: stencil_base_ctor_def Let_def split: if_splits)
  have lh: "lhalo b = uint center" and rh: "rhalo b = uint width - uint center - 1"
    using b' bb by simp_all
  have sl: "sint center = uint center" "sint (width - center - 1) = uint width - uint center - 1"
    using lh rh by (simp_all add: beq)
  have w1: "unat (width - 1) = length coefs - 1"
    using w0 un by (simp add: unat_minus_one)
  have pos: "0 < length coefs" using w0 un by (metis unat_eq_zero gr0I)
  have sum: "nat (uint center + (int (length coefs) - uint center - 1)) = length coefs - 1"
    using pos by simp
  have sum': "nat (int (length coefs) - 1) = length coefs - 1" by simp
  have base: "base_wf b"
    using cw pos by (simp add: base_wf_def beq sl uw w1 un sum' list_all_length)
  have b31: "uint center < 2147483648" "int (length coefs) - uint center < 2147483649"
    using ok(3,4) by (simp_all add: uw)
  have "stencil_wf st"
    using base g pos b31 unfolding st
    by (simp add: stencil_wf_def init_def Let_def base_wf_def beq sl uw list_all_length)
  moreover have "queue st = q" "s_buf st = map (\<lambda>d. coefs) [0..<length q]"
    "lhalo st = uint center" "rhalo st = int (length coefs) - uint center - 1"
    "conv st = map (\<lambda>dev. fst (init_device sizeof_T width (lhalo st) (rhalo st) dev)) q"
    unfolding st by (simp_all add: init_def Let_def beq sl uw)
  ultimately show ?thesis unfolding width_def [symmetric] by simp
qed

lemma stencil_ctor_init:
  assumes c: "stencil_ctor mem sizeof_T q coefs center = Inr st"
  shows "queue st = q
     \<and> conv st = map (\<lambda>dev. fst (init_device sizeof_T (word_of_nat (length coefs)) (lhalo st) (rhalo st) dev)) q
     \<and> loc_s st = map (\<lambda>dev. fst (snd (init_device sizeof_T (word_of_nat (length coefs)) (lhalo st) (rhalo st) dev))) q
     \<and> loc_x st = map (\<lambda>dev. snd (snd (init_device sizeof_T (word_of_nat (length coefs)) (lhalo st) (rhalo st) dev))) q"
proof -
  obtain b where b: "stencil_base_ctor mem q (word_of_nat (length coefs)) center coefs = Inr b"
    and st: "st = init sizeof_T (word_of_nat (length coefs)) b"
    using c by (auto simp: stencil_ctor_def Let_def split: sum.splits)
  have "queue b = q"
    using b by (auto simp: stencil_base_ctor_def Let_def split: if_splits)
  then show ?thesis unfolding st by (simp add: init_def Let_def)
qed

lemma exchange_halos_frame:
  "exchange_halos st x = Some st' \<Longrightarrow> \<exists>hb db. st' = st\<lparr> hbuf := hb, dbuf := db \<rparr>"
proof -
  assume e: "exchange_halos st x = Some st'"
  show ?thesis
  proof (cases "length (queue st) \<le> 1 \<or> trunc_int (lhalo st + rhalo st) \<le> 0")
    case True
    then have "st' = st" using e by (simp add: exchange_halos_def Let_def)
    then have "st' = st\<lparr> hbuf := hbuf st, dbuf := dbuf st \<rparr>" by simp
    then show ?thesis by blast
  next
    case False
    then show ?thesis using e
      by (auto simp: exchange_halos_def Let_def split: bind_splits)
  qed
qed

lemma convolve_frame:
  assumes "convolve st x y alpha beta = Some (st', y')"
  shows "queue st' = queue st \<and> conv st' = conv st \<and> loc_s st' = loc_s st \<and> loc_x st' = loc_x st
     \<and> s_buf st' = s_buf st \<and> lhalo st' = lhalo st \<and> rhalo st' = rhalo st"
proof -
  obtain st1 where "exchange_halos st x = Some st1" and "st' = st1"
    using assms by (auto simp: convolve_def split: bind_splits)
  then show ?thesis using exchange_halos_frame [of st x st'] by auto
qed

text \<open>
  C5. The constructor chooses the strategy of every device. The width that
  \<open>init\<close> receives is \<open>static_cast<unsigned>(st.size())\<close>, the number of
  coefficients modulo \<open>2^32\<close>: device \<open>d\<close> has the generic kernel exactly when it is
  a CPU or that width exceeds 64, and the tiled kernel otherwise. With the
  tiled kernel the local-memory sizes are \<open>sizeof(T) * width\<close> and
  \<open>sizeof(T) * (workgroup_size + lhalo + rhalo)\<close>, with the generic kernel both
  are 1. No call of \<open>convolve\<close> changes the kernel or the sizes of a device.
\<close>

theorem strategy_selection:
  assumes c: "stencil_ctor mem sizeof_T q coefs center = Inr st"
    and d: "d < length q"
  shows "(conv st ! d = slow_conv_kernel \<longleftrightarrow> is_cpu (q ! d) \<or> 64 < length coefs mod 2 ^ 32)
     \<and> (conv st ! d = fast_conv_kernel \<longleftrightarrow> \<not> (is_cpu (q ! d) \<or> 64 < length coefs mod 2 ^ 32))
     \<and> (conv st ! d = fast_conv_kernel \<longrightarrow>
          loc_s st ! d = sizeof_T * (length coefs mod 2 ^ 32)
        \<and> loc_x st ! d = sizeof_T * nat (int (workgroup_size (q ! d)) + lhalo st + rhalo st))
     \<and> (conv st ! d = slow_conv_kernel \<longrightarrow> loc_s st ! d = 1 \<and> loc_x st ! d = 1)
     \<and> (\<forall>x y alpha beta st' y'. convolve st x y alpha beta = Some (st', y') \<longrightarrow>
          conv st' ! d = conv st ! d \<and> loc_s st' ! d = loc_s st ! d \<and> loc_x st' ! d = loc_x st ! d)"
proof -
  define width where "width = (word_of_nat (length coefs) :: 32 word)"
  have un: "unat width = length coefs mod 2 ^ 32"
    by (simp add: width_def unat_of_nat)
  have w: "64 < width \<longleftrightarrow> 64 < length coefs mod 2 ^ 32"
    using un by (simp add: word_less_nat_alt)
  have i: "conv st ! d = fst (init_device sizeof_T width (lhalo st) (rhalo st) (q ! d))"
    "loc_s st ! d = fst (snd (init_device sizeof_T width (lhalo st) (rhalo st) (q ! d)))"
    "loc_x st ! d = snd (snd (init_device sizeof_T width (lhalo st) (rhalo st) (q ! d)))"
    using stencil_ctor_init [OF c] d by (simp_all add: width_def)
  have f: "conv st' ! d = conv st ! d \<and> loc_s st' ! d = loc_s st ! d \<and> loc_x st' ! d = loc_x st ! d"
    if "convolve st x y alpha beta = Some (st', y')" for x y alpha beta st' y'
    using convolve_frame [OF that] by simp
  have k: "conv st ! d = slow_conv_kernel \<longleftrightarrow> is_cpu (q ! d) \<or> 64 < length coefs mod 2 ^ 32"
    "conv st ! d = fast_conv_kernel \<longleftrightarrow> \<not> (is_cpu (q ! d) \<or> 64 < length coefs mod 2 ^ 32)"
    by (simp_all add: i init_device_def w)
  have l: "conv st ! d = fast_conv_kernel \<longrightarrow>
          loc_s st ! d = sizeof_T * (length coefs mod 2 ^ 32)
        \<and> loc_x st ! d = sizeof_T * nat (int (workgroup_size (q ! d)) + lhalo st + rhalo st)"
    "conv st ! d = slow_conv_kernel \<longrightarrow> loc_s st ! d = 1 \<and> loc_x st ! d = 1"
    by (simp_all add: i init_device_def w un)
  show ?thesis
    using k l f by blast
qed

theorem strategy_selection_witness:
  "\<exists>st st' y'.
     stencil_ctor (\<lambda>d i. 0) 4 [\<lparr> is_cpu = True, workgroup_size = 1 \<rparr>,
                               \<lparr> is_cpu = False, workgroup_size = 256 \<rparr>] [1, - 2, 1 :: int] 1 = Inr st
   \<and> conv st = [slow_conv_kernel, fast_conv_kernel] \<and> loc_s st = [1, 12] \<and> loc_x st = [1, 1032]
   \<and> convolve st [[0, 1], [4, 9, 16]] [[5, 5], [5, 5, 5]] 0 1 = Some (st', y')
   \<and> conv st' ! 1 = fast_conv_kernel \<and> loc_s st' ! 1 = 12 \<and> loc_x st' ! 1 = 1032"
proof -
  let ?q = "[\<lparr> is_cpu = True, workgroup_size = 1 \<rparr>, \<lparr> is_cpu = False, workgroup_size = 256 \<rparr>]"
  let ?st = "\<lparr> queue = ?q, hbuf = [0, 0, 0, 0 :: int], dbuf = [[0, 0, 0], [0, 0, 0]],
                s_buf = [[1, - 2, 1], [1, - 2, 1]], lhalo = 1, rhalo = 1,
                conv = [slow_conv_kernel, fast_conv_kernel],
                loc_s = [1, 12], loc_x = [1, 1032] \<rparr>"
  let ?x = "[[0, 1], [4, 9, 16 :: int]]"
  let ?y = "[[5, 5], [5, 5, 5 :: int]]"
  have c: "stencil_ctor (\<lambda>d i. 0) 4 ?q [1, - 2, 1 :: int] 1 = Inr ?st"
    by code_simp
  have wf: "stencil_wf ?st" by (simp add: stencil_wf_def base_wf_def)
  have sf: "sizes_fit ?st" by (simp add: sizes_fit_def less_Suc_eq)
  have x: "length ?x = length (queue ?st)" by simp
  have y: "map length ?y = map length ?x" by simp
  obtain st' y' where e: "convolve ?st ?x ?y 0 1 = Some (st', y')"
    using convolve_eq [OF wf sf x y, of 0 1] by blast
  have "conv st' ! 1 = fast_conv_kernel \<and> loc_s st' ! 1 = 12 \<and> loc_x st' ! 1 = 1032"
    using strategy_selection [OF c, of 1] e by simp blast
  with c e show ?thesis by (intro exI [of _ ?st] exI [of _ st'] exI [of _ y']) simp
qed

text \<open>
  C5, where it fails. A stencil of \<open>2^32 + 3\<close> coefficients with center 1 on a
  device that is not a CPU: the width exceeds 64, the \<open>unsigned\<close> that holds it is
  3, and the constructor chooses the tiled kernel, with a coefficient tile for
  three elements.
\<close>

theorem strategy_selection_counterexample:
  "stencil_ctor (\<lambda>d i. 0) 4 [\<lparr> is_cpu = False, workgroup_size = 64 \<rparr>] (replicate 4294967299 (1 :: int)) 1
     = Inr
       \<lparr> queue = [\<lparr> is_cpu = False, workgroup_size = 64 \<rparr>], hbuf = [0, 0],
          dbuf = [[0, 0, 0]], s_buf = [replicate 4294967299 1], lhalo = 1, rhalo = 1,
          conv = [fast_conv_kernel], loc_s = [12], loc_x = [264] \<rparr>
   \<and> \<not> is_cpu \<lparr> is_cpu = False, workgroup_size = 64 \<rparr>
   \<and> 64 < length (replicate 4294967299 (1 :: int))"
proof -
  have u: "unat (4294967299 :: 32 word) = 3" "unat (4294967299 - 1 :: 32 word) = 2" by simp_all
  have s: "sint (1 :: 32 word) = 1" "sint (4294967299 - 1 - 1 :: 32 word) = 1" by simp_all
  have r: "replicate 2 (0 :: int) = [0, 0]" by code_simp
  have m: "map (\<lambda>i. 0 :: int) [0..<3] = [0, 0, 0]" by code_simp
  have c: "(1 :: 32 word) < 4294967299" "\<not> (64 :: 32 word) < 4294967299" by simp_all
  have b: "stencil_base_ctor (\<lambda>d i. 0) [\<lparr> is_cpu = False, workgroup_size = 64 \<rparr>] 4294967299 1 (replicate 4294967299 (1 :: int))
     = Inr \<lparr> queue = [\<lparr> is_cpu = False, workgroup_size = 64 \<rparr>], hbuf = [0, 0],
              dbuf = [[0, 0, 0]], s_buf = [replicate 4294967299 1], lhalo = 1, rhalo = 1 \<rparr>"
    unfolding stencil_base_ctor_def Let_def u s using c by (simp add: r m)
  have "stencil_ctor (\<lambda>d i. 0) 4 [\<lparr> is_cpu = False, workgroup_size = 64 \<rparr>] (replicate 4294967299 (1 :: int)) 1
     = Inr
       \<lparr> queue = [\<lparr> is_cpu = False, workgroup_size = 64 \<rparr>], hbuf = [0, 0],
          dbuf = [[0, 0, 0]], s_buf = [replicate 4294967299 1], lhalo = 1, rhalo = 1,
          conv = [fast_conv_kernel], loc_s = [12], loc_x = [264] \<rparr>"
    using c by (simp add: stencil_ctor_def b init_def init_device_def u)
  then show ?thesis by simp
qed

text \<open>
  C6. On one device, the stencil constructed from the coefficients \<open>[1, -2, 1]\<close>
  with center 1 has \<open>lhalo = rhalo = 1\<close>, and \<open>convolve\<close> with \<open>alpha = 0\<close>,
  \<open>beta = 1\<close> on \<open>x = [0, 1, 4, 9, 16]\<close> produces \<open>[1, 2, 2, 2, -7]\<close>, whatever the
  five elements of \<open>y\<close> were, with either kernel (work groups that \<open>int\<close> holds).
\<close>

theorem second_difference:
  assumes g: "0 < workgroup_size dev" and r: "int (workgroup_size dev) + 4 \<le> 2 ^ 31"
    and y0: "length y0 = 5"
  shows "\<exists>st st'. stencil_ctor mem sizeof_T [dev] [1, - 2, 1] 1 = Inr st
     \<and> lhalo st = 1 \<and> rhalo st = 1
     \<and> convolve st [[0, 1, 4, 9, 16]] [y0] 0 1 = Some (st', [[1, 2, 2, 2, - 7 :: int]])"
proof -
  let ?x = "[[0, 1, 4, 9, 16 :: int]]"
  obtain b where "stencil_base_ctor mem [dev] 3 1 [1, - 2, 1 :: int] = Inr b"
    using ctor_succeeds [of "[dev]" 1 3 mem "[1, - 2, 1 :: int]"] by auto
  then obtain st where c: "stencil_ctor mem sizeof_T [dev] [1, - 2, 1 :: int] 1 = Inr st"
    by (simp add: stencil_ctor_def)
  have s: "stencil_wf st" "queue st = [dev]" "s_buf st = [[1, - 2, 1]]" "lhalo st = 1" "rhalo st = 1"
    using stencil_ctor_wf [OF c] g by simp_all
  have x: "length ?x = length (queue st)" by (simp add: s)
  have y: "map length [y0] = map length ?x" by (simp add: y0)
  have sf: "sizes_fit st" using r by (simp add: sizes_fit_def s)
  obtain hb db where e: "convolve st ?x [y0] 0 1 =
        Some (st\<lparr> hbuf := hb, dbuf := db \<rparr>,
              map (\<lambda>d. conv_dev st ?x 0 1 d ([y0] ! d)) [0..<length (queue st)])"
    using convolve_eq [OF s(1) sf x y, of 0 1] by blast
  have k: "kernel_sum (conv st ! 0) [1, - 2, 1] 1 1 ?x 0 idx
      = conv_at [1, - 2, 1] 1 1 ?x 0 idx" if "idx \<le> 4" for idx
    using that by (intro kernel_sum_fits) simp
  have v: "conv_at [1, - 2, 1] 1 1 ?x 0 0 = 1"
    "conv_at [1, - 2, 1] 1 1 ?x 0 (Suc 0) = 2"
    "conv_at [1, - 2, 1] 1 1 ?x 0 (Suc (Suc 0)) = 2"
    "conv_at [1, - 2, 1] 1 1 ?x 0 (Suc (Suc (Suc 0))) = 2"
    "conv_at [1, - 2, 1] 1 1 ?x 0 (Suc (Suc (Suc (Suc 0)))) = - 7"
    by code_simp+
  have "conv_dev st ?x 0 1 0 y0 = [1, 2, 2, 2, - 7]"
    using y0 by (simp add: conv_dev_def s k v)
  then have "convolve st ?x [y0] 0 1 = Some (st\<lparr> hbuf := hb, dbuf := db \<rparr>, [[1, 2, 2, 2, - 7]])"
    using e by (simp add: s)
  then show ?thesis using c s by blast
qed

theorem second_difference_witness:
  "\<exists>st st'. stencil_ctor (\<lambda>d i. 0) 8 [\<lparr> is_cpu = False, workgroup_size = 256 \<rparr>] [1, - 2, 1] 1 = Inr st
     \<and> lhalo st = 1 \<and> rhalo st = 1
     \<and> convolve st [[0, 1, 4, 9, 16]] [[7, 7, 7, 7, 7]] 0 1 = Some (st', [[1, 2, 2, 2, - 7 :: int]])"
  using second_difference [of "\<lparr> is_cpu = False, workgroup_size = 256 \<rparr>" "[7, 7, 7, 7, 7]"
     "\<lambda>d i. 0" 8]
  by simp

end
